theory Spec2Isabelle
  imports Main "HOL-Library.Word"
begin

section \<open>copynotice: the notice writer of \<^verbatim>\<open>src/main.cpp\<close>\<close>

text \<open>
  The development embeds \<^verbatim>\<open>program::instance\<close> of \<^verbatim>\<open>src/main.cpp\<close>: the
  directory expansion (\<^verbatim>\<open>target_directories\<close> and the loops of \<^verbatim>\<open>init\<close> that
  call it), the scan (\<^verbatim>\<open>iterate\<close>, \<^verbatim>\<open>execute\<close>) and the rewrite of one file
  (\<^verbatim>\<open>create_file\<close>, with \<^verbatim>\<open>ask_yesno\<close>).

  Conventions of the embedding:
  \<^item> a \<^verbatim>\<open>std::u8string\<close> is a list of bytes; \<^typ>\<open>char\<close> is the 8-bit byte;
  \<^item> a \<^verbatim>\<open>std::wstring\<close> (a path, a file name, a line typed at the console) is a list of
    characters as well: the code only concatenates and compares them;
  \<^item> the members of \<^verbatim>\<open>instance\<close> are the fields of a record; the disk and the answers of
    the Win32 enumeration calls are further fields of the state that every operation
    takes and returns;
  \<^item> an exception that leaves \<^verbatim>\<open>create_file\<close>, \<^verbatim>\<open>iterate\<close> or
    \<^verbatim>\<open>target_directories\<close> is the left injection of a sum;
  \<^item> the 32-bit file counters are \<^typ>\<open>32 word\<close>; the offsets into the notice are natural
    numbers (the notice is shorter than \<open>2^32\<close> bytes: \<^verbatim>\<open>init\<close> sizes it with a 32-bit
    length, and the offsets never exceed its length, see \<open>write_notice\<close> below; the
    comment prefix is an array of 16 bytes); the length of the first code line,
    which no such bound holds for, is cast to 32 bits as line 723 does (\<open>uint32_t\<close>).
\<close>

subsection \<open>Bytes and strings\<close>

type_synonym u8string = string
type_synonym wstring = string

abbreviation CR :: char where "CR \<equiv> CHR 0x0D"
abbreviation LF :: char where "LF \<equiv> CHR 0x0A"
abbreviation backslash :: char where "backslash \<equiv> CHR 0x5C"

text \<open>\<^verbatim>\<open>char8_t newline[] = { u8'\r', u8'\n' }\<close> of \<^verbatim>\<open>create_file\<close>.\<close>

definition newline :: u8string where
  "newline = [CR, LF]"

text \<open>
  \<^verbatim>\<open>static_cast<std::uint32_t>\<close> of a size: the lengths that \<^verbatim>\<open>wdul::fwrite\<close> and
  \<^verbatim>\<open>wdul::fread\<close> take are 32 bits wide.
\<close>

definition uint32_t :: "nat \<Rightarrow> nat" where
  "uint32_t n = n mod 2 ^ 32"

text \<open>\<^verbatim>\<open>std::u8string::starts_with\<close>.\<close>

definition starts_with :: "u8string \<Rightarrow> u8string \<Rightarrow> bool" where
  "starts_with s p = (take (length p) s = p)"

text \<open>
  \<^verbatim>\<open>mNotice.find(u8"\r\n"sv, noticeOffset)\<close>: the least position \<open>p \<ge> pos\<close> at which
  the two bytes CR, LF stand, \<open>None\<close> for \<^verbatim>\<open>npos\<close> (also when \<open>pos\<close> is beyond the end).
\<close>

fun find_crlf_from :: "u8string \<Rightarrow> nat \<Rightarrow> nat option" where
  "find_crlf_from (c # d # cs) i =
     (if c = CR \<and> d = LF then Some i else find_crlf_from (d # cs) (Suc i))"
| "find_crlf_from cs i = None"

definition find_crlf :: "u8string \<Rightarrow> nat \<Rightarrow> nat option" where
  "find_crlf s pos = (if length s < pos then None else find_crlf_from (drop pos s) pos)"

subsection \<open>The file primitives of wdul\<close>

text \<open>
  An open file is the list of bytes at and after the file position (a file read) or the
  list of bytes written so far (a file written).
\<close>

text \<open>
  Modelled from the spec: \<^verbatim>\<open>wdul::fread\<close> (declared in wdul/fs.hpp, which is not under
  src/). It reads at most \<open>bufferSize\<close> bytes at the file position, advances the position by
  what it read and returns the bytes read (the count read is their length, \<open>0\<close> at the
  end of the file).
\<close>

definition fread :: "u8string \<Rightarrow> nat \<Rightarrow> u8string \<times> u8string" where
  "fread file bufferSize = (take bufferSize file, drop bufferSize file)"

text \<open>
  Modelled from the spec: \<^verbatim>\<open>wdul::fwrite\<close> (wdul/fs.hpp, not under src/) appends the
  bytes to the file written. The callers pass it a length and a pointer; here they pass
  the bytes that the length covers.
\<close>

definition fwrite :: "u8string \<Rightarrow> u8string \<Rightarrow> u8string" where
  "fwrite file bytes = file @ bytes"

text \<open>
  Modelled from the spec: \<^verbatim>\<open>wdul::freadline\<close> (wdul/fs.hpp, not under src/). The spec
  calls it reading a "logical line (delimited by a line terminator)", with "no first
  line" on an empty file, and the rest of the file following the line for the later
  stream copy. The model: at the end of the file it returns false and leaves the string
  empty; otherwise it returns true, the bytes before the first LF (without a CR that
  stands directly before that LF), and the position after the LF; a last line without
  terminator is returned whole. The string is replaced, not appended to
  (\<^verbatim>\<open>create_file\<close> calls it again on the same string and expects the new line alone).
\<close>

definition freadline :: "u8string \<Rightarrow> bool \<times> u8string \<times> u8string" where
  "freadline file =
     (if file = [] then (False, [], [])
      else
        let line = takeWhile (\<lambda>c. c \<noteq> LF) file;
            terminated = (length line < length file);
            rest = drop (Suc (length line)) file
        in (True,
            if terminated \<and> line \<noteq> [] \<and> last line = CR then butlast line else line,
            rest))"

subsection \<open>Writing the notice (lines 695 to 720 of \<^verbatim>\<open>create_file\<close>)\<close>

text \<open>
  The do-while loop; \<open>dstFile\<close> is what has been written to the destination so far. The
  loop is entered with \<open>noticeOffset = 0\<close> and goes round again only after a CR LF was
  found at \<open>commentEndPos\<close>, so that \<open>noticeOffset \<le> length mNotice\<close> throughout and
  \<open>commentEndPos - noticeOffset\<close> never underflows.
\<close>

function write_notice :: "u8string \<Rightarrow> u8string \<Rightarrow> nat \<Rightarrow> u8string \<Rightarrow> u8string" where
  "write_notice commentPrefix notice noticeOffset dstFile =
     (let commentEndPos =
            (case find_crlf notice noticeOffset of
               Some findResult \<Rightarrow> findResult
             | None \<Rightarrow> length notice);
          dstFile1 = fwrite dstFile commentPrefix;
          dstFile2 = fwrite dstFile1 (take (commentEndPos - noticeOffset) (drop noticeOffset notice));
          dstFile3 = fwrite dstFile2 newline
      in if commentEndPos \<noteq> length notice
         then write_notice commentPrefix notice (commentEndPos + 2) dstFile3
         else dstFile3)"
  by pat_completeness auto

lemma find_crlf_from_bounds:
  "find_crlf_from cs i = Some p \<Longrightarrow> i \<le> p \<and> p + 2 \<le> i + length cs"
proof (induction cs i rule: find_crlf_from.induct)
  case (1 c d cs i)
  then show ?case by (auto split: if_splits)
qed simp_all

lemma find_crlf_bounds:
  "find_crlf s pos = Some p \<Longrightarrow> pos \<le> p \<and> p + 2 \<le> length s"
  using find_crlf_from_bounds [of "drop pos s" pos p]
  by (auto simp: find_crlf_def split: if_splits)

termination write_notice
proof (relation "measure (\<lambda>(commentPrefix, notice, noticeOffset, dstFile). Suc (length notice) - noticeOffset)")
  show "wf (measure (\<lambda>(commentPrefix, notice, noticeOffset, dstFile). Suc (length notice) - noticeOffset))"
    by simp
next
  fix commentPrefix notice :: u8string and noticeOffset :: nat and dstFile :: u8string
    and commentEndPos dstFile1 dstFile2 dstFile3
  assume e: "commentEndPos = (case find_crlf notice noticeOffset of None \<Rightarrow> length notice | Some findResult \<Rightarrow> findResult)"
    and n: "commentEndPos \<noteq> length notice"
  from e n obtain p where p: "find_crlf notice noticeOffset = Some p" "commentEndPos = p"
    by (cases "find_crlf notice noticeOffset") auto
  from find_crlf_bounds [OF p(1)] p(2)
  show "((commentPrefix, notice, commentEndPos + 2, dstFile3), (commentPrefix, notice, noticeOffset, dstFile))
        \<in> measure (\<lambda>(commentPrefix, notice, noticeOffset, dstFile). Suc (length notice) - noticeOffset)"
    by (simp, arith)
qed

declare write_notice.simps [simp del]

subsection \<open>The instance, the console and the disk\<close>

text \<open>
  What \<^verbatim>\<open>mCons.write\<close> is called with, one constructor for each message of the modelled
  functions (the escape sequences for colours are left out). \<open>Prompt\<close> is the
  \<^verbatim>\<open>"> "\<close> that \<^verbatim>\<open>console::read\<close> writes before it reads.
\<close>

datatype message =
    Banner
  | TargetDirectory wstring wstring
  | AlreadyTargeted wstring
  | ExecutingForTarget wstring
  | CouldNotFindTarget wstring
  | FinishedTarget wstring "32 word"
  | DoneCreated "32 word"
  | Opening wstring
  | Creating wstring
  | DoneMsg
  | FileExists wstring
  | OverwriteQuestion
  | Prompt
  | InvalidInput
  | SourceEmpty wstring

text \<open>
  The console: the messages written so far, and the strings that the coming calls of
  \<^verbatim>\<open>console::read()\<close> return (what the user will type, one string for each call).
\<close>

record console =
  written :: "message list"
  pending :: "wstring list"

text \<open>\<^verbatim>\<open>struct directory_argument\<close>.\<close>

record directory_argument =
  src :: wstring
  dst :: wstring

text \<open>The Win32 error codes the code tells apart.\<close>

datatype win32_error = ERROR_FILE_NOT_FOUND | ERROR_NO_MORE_FILES | ERROR_OTHER nat

text \<open>
  The fields of \<^verbatim>\<open>WIN32_FIND_DATAW\<close> that the code reads: the two attribute bits and
  the file name.
\<close>

record find_data =
  attr_directory :: bool
  attr_hidden :: bool
  cFileName :: wstring

text \<open>
  The exceptions: \<^verbatim>\<open>wdul::throw_win32\<close> and \<^verbatim>\<open>wdul::throw_last_error\<close> with their
  code and text, a file that \<^verbatim>\<open>wdul::fopen\<close> cannot open, and a console that has no
  answer left (the program then waits at the prompt; the model stops there).
\<close>

datatype error =
    Win32Error win32_error string
  | IoError wstring
  | InputExhausted

text \<open>
  The data members of \<^verbatim>\<open>class instance\<close>, under their names. \<^verbatim>\<open>mCommentPrefix\<close>,
  in the source a null-terminated array of 16 bytes, is the string before the
  terminator (\<^verbatim>\<open>init\<close> admits 1 to 15 bytes).
\<close>

record program_instance =
  mCons :: console
  mRecurse :: bool
  mVerbose :: bool
  mReplace :: bool
  mCommentPrefix :: u8string
  mDirectories :: "directory_argument list"
  mExtensions :: "wstring list"
  mNotice :: u8string
  mAlwaysOverwriteFiles :: bool

text \<open>
  The state of a run: the instance and, outside the program, the disk.
  \<^item> \<open>files\<close> maps the path of each file to its bytes; a file is identified with the
    path the program names it by.
  \<^item> \<open>access_denied\<close> holds of the paths that \<^verbatim>\<open>wdul::fopen\<close> cannot open whatever
    their content (no permission, no such directory).
  \<^item> \<open>found\<close> is what the enumeration by \<^verbatim>\<open>FindFirstFileW\<close> and \<^verbatim>\<open>FindNextFileW\<close>
    delivers for a search string: the error of a failed \<^verbatim>\<open>FindFirstFileW\<close>, or the
    first entry, the entries that \<^verbatim>\<open>FindNextFileW\<close> then returns, and the error code
    with which \<^verbatim>\<open>FindNextFileW\<close> finally fails. It is given with the state and
    does not follow the files that the run creates.
\<close>

record world = program_instance +
  files :: "wstring \<rightharpoonup> u8string"
  access_denied :: "wstring \<Rightarrow> bool"
  found :: "wstring \<Rightarrow> win32_error + find_data \<times> find_data list \<times> win32_error"

text \<open>
  The default member initialisers and the constructor of \<^verbatim>\<open>instance\<close>, which writes the
  banner: the state of a run before \<^verbatim>\<open>init\<close>.
\<close>

definition new_instance ::
  "wstring list \<Rightarrow> (wstring \<rightharpoonup> u8string) \<Rightarrow> (wstring \<Rightarrow> bool) \<Rightarrow>
   (wstring \<Rightarrow> win32_error + find_data \<times> find_data list \<times> win32_error) \<Rightarrow> world" where
  "new_instance typed disk denied enumeration =
     \<lparr>mCons = \<lparr>written = [Banner], pending = typed\<rparr>,
      mRecurse = False, mVerbose = False, mReplace = False,
      mCommentPrefix = ''// '',
      mDirectories = [], mExtensions = [], mNotice = [],
      mAlwaysOverwriteFiles = False,
      files = disk, access_denied = denied, found = enumeration\<rparr>"

text \<open>\<^verbatim>\<open>mCons.write\<close>, and a write under \<^verbatim>\<open>if (mVerbose)\<close>.\<close>

definition cons_write :: "message \<Rightarrow> world \<Rightarrow> world" where
  "cons_write m s = s\<lparr>mCons := (mCons s)\<lparr>written := written (mCons s) @ [m]\<rparr>\<rparr>"

definition verbose_write :: "message \<Rightarrow> world \<Rightarrow> world" where
  "verbose_write m s = (if mVerbose s then cons_write m s else s)"

text \<open>
  Modelled from the spec: \<^verbatim>\<open>wdul::fexists\<close> (wdul/fs.hpp, not under src/): "a file
  already exists there".
\<close>

definition fexists :: "world \<Rightarrow> wstring \<Rightarrow> bool" where
  "fexists s path = (files s path \<noteq> None)"

text \<open>
  Modelled from the spec: \<^verbatim>\<open>wdul::fopen\<close> (wdul/fs.hpp, not under src/) as
  \<^verbatim>\<open>create_file\<close> calls it for the source, with \<^verbatim>\<open>file_open_mode::open_existing\<close> and
  read access. It throws when there is no such file or the file cannot be opened;
  otherwise the open file stands at the first byte.
\<close>

definition fopen_existing :: "world \<Rightarrow> wstring \<Rightarrow> error + u8string" where
  "fopen_existing s path =
     (case files s path of
        None \<Rightarrow> Inl (IoError path)
      | Some bytes \<Rightarrow> if access_denied s path then Inl (IoError path) else Inr bytes)"

text \<open>
  Modelled from the spec: \<^verbatim>\<open>wdul::fopen\<close> as \<^verbatim>\<open>create_file\<close> calls it for the
  destination, with \<^verbatim>\<open>file_open_mode::create_always\<close> and write access: the file is
  created, or truncated when it exists. \<open>held\<close> is the path of the source file, which
  \<^verbatim>\<open>create_file\<close> holds open with \<^verbatim>\<open>file_share_mode::read\<close> only: a file held so
  cannot be opened for writing.
\<close>

definition fopen_create_always :: "world \<Rightarrow> wstring \<Rightarrow> wstring \<Rightarrow> error + world" where
  "fopen_create_always s held path =
     (if path = held \<or> access_denied s path then Inl (IoError path)
      else Inr (s\<lparr>files := (files s)(path \<mapsto> [])\<rparr>))"

subsection \<open>\<^verbatim>\<open>ask_yesno\<close>\<close>

text \<open>
  The loop of \<^verbatim>\<open>ask_yesno\<close> over the strings still to be read; \<open>out\<close> are the messages
  written. Each round reads one string (\<^verbatim>\<open>Console.read()\<close>, which writes the prompt
  first).
\<close>

fun ask_yesno_loop :: "wstring list \<Rightarrow> message list \<Rightarrow> error + bool \<times> wstring list \<times> message list" where
  "ask_yesno_loop [] out = Inl InputExhausted"
| "ask_yesno_loop (last_read # typed) out =
     (if last_read = ''y'' \<or> last_read = ''yes'' then Inr (True, typed, out @ [Prompt])
      else if last_read = ''n'' \<or> last_read = ''no'' then Inr (False, typed, out @ [Prompt])
      else ask_yesno_loop typed (out @ [Prompt, InvalidInput]))"

definition ask_yesno :: "world \<Rightarrow> error + bool \<times> world" where
  "ask_yesno s =
     (case ask_yesno_loop (pending (mCons s)) (written (mCons s)) of
        Inl e \<Rightarrow> Inl e
      | Inr (answer, typed, out) \<Rightarrow> Inr (answer, s\<lparr>mCons := \<lparr>written = out, pending = typed\<rparr>\<rparr>))"

subsection \<open>\<^verbatim>\<open>create_file\<close>\<close>

text \<open>
  Lines 646 to 662: the question before an existing file is overwritten. The result is
  whether \<^verbatim>\<open>create_file\<close> goes on (false: it returns false at line 659).
\<close>

definition confirm_overwrite :: "world \<Rightarrow> wstring \<Rightarrow> error + bool \<times> world" where
  "confirm_overwrite s dstPath =
     (if \<not> mAlwaysOverwriteFiles s then
        if fexists s dstPath then
          (case ask_yesno (cons_write OverwriteQuestion (cons_write (FileExists dstPath) s)) of
             Inl e \<Rightarrow> Inl e
           | Inr (answer, s') \<Rightarrow>
               if answer then Inr (True, s'\<lparr>mAlwaysOverwriteFiles := True\<rparr>)
               else Inr (False, s'))
        else Inr (True, s)
      else Inr (True, s))"

text \<open>
  Lines 685 to 691: the loop that reads past the comment lines when \<^verbatim>\<open>mReplace\<close> is
  set. The result is \<^verbatim>\<open>firstCodeLine\<close> and the source file as the loop leaves them.
\<close>

function skip_comments :: "u8string \<Rightarrow> u8string \<Rightarrow> u8string \<times> u8string" where
  "skip_comments commentPrefix srcFile =
     (let (ok, firstCodeLine, srcFile') = freadline srcFile
      in if ok then
           if \<not> starts_with firstCodeLine commentPrefix then (firstCodeLine, srcFile')
           else skip_comments commentPrefix srcFile'
         else (firstCodeLine, srcFile'))"
  by pat_completeness auto

lemma freadline_shorter:
  "freadline file = (True, line, rest) \<Longrightarrow> length rest < length file"
  by (auto simp: freadline_def Let_def split: if_splits)

termination skip_comments
proof (relation "measure (\<lambda>(commentPrefix, srcFile). length srcFile)")
  show "wf (measure (\<lambda>(commentPrefix, srcFile). length srcFile))"
    by simp
next
  fix commentPrefix srcFile :: u8string and x :: "bool \<times> u8string \<times> u8string"
    and ok :: bool and y :: "u8string \<times> u8string" and firstCodeLine srcFile' :: u8string
  assume "x = freadline srcFile" "(ok, y) = x" "(firstCodeLine, srcFile') = y" "ok"
  then have "freadline srcFile = (True, firstCodeLine, srcFile')"
    by simp
  from freadline_shorter [OF this]
  show "((commentPrefix, srcFile'), (commentPrefix, srcFile)) \<in> measure (\<lambda>(commentPrefix, srcFile). length srcFile)"
    by simp
qed

declare skip_comments.simps [simp del]

text \<open>
  Lines 727 to 731: the copy of the rest of the source through the 64-byte
  \<^verbatim>\<open>readBuffer\<close>.
\<close>

function copy_rest :: "u8string \<Rightarrow> u8string \<Rightarrow> u8string" where
  "copy_rest srcFile dstFile =
     (let (readBuffer, srcFile') = fread srcFile 64
      in if length readBuffer \<noteq> 0 then copy_rest srcFile' (fwrite dstFile readBuffer)
         else dstFile)"
  by pat_completeness auto

termination copy_rest
proof (relation "measure (\<lambda>(srcFile, dstFile). length srcFile)")
  show "wf (measure (\<lambda>(srcFile, dstFile). length srcFile))"
    by simp
next
  fix srcFile dstFile :: u8string and x :: "u8string \<times> u8string" and readBuffer srcFile' :: u8string
  assume "x = fread srcFile 64" "(readBuffer, srcFile') = x" "length readBuffer \<noteq> 0"
  then show "((srcFile', fwrite dstFile readBuffer), (srcFile, dstFile)) \<in> measure (\<lambda>(srcFile, dstFile). length srcFile)"
    by (auto simp: fread_def)
qed

declare copy_rest.simps [simp del]

text \<open>
  Lines 628 to 634 and 642 to 644: the two paths. The source directory may be empty (the
  current directory), the destination directory is not.
\<close>

definition source_path :: "directory_argument \<Rightarrow> wstring \<Rightarrow> wstring" where
  "source_path Directories Fname =
     (if src Directories \<noteq> [] then src Directories @ [backslash] else src Directories) @ Fname"

definition destination_path :: "directory_argument \<Rightarrow> wstring \<Rightarrow> wstring" where
  "destination_path Directories Fname = dst Directories @ [backslash] @ Fname"

text \<open>
  Lines 671 to 693: the first line is read; when it starts with the comment prefix and
  \<^verbatim>\<open>mReplace\<close> is set, the loop above reads on. \<open>None\<close> is the empty source file
  (line 673); otherwise the result is \<^verbatim>\<open>firstCodeLine\<close> and the source file, which
  stands after the last line read.
\<close>

definition first_code_line :: "u8string \<Rightarrow> bool \<Rightarrow> u8string \<Rightarrow> (u8string \<times> u8string) option" where
  "first_code_line commentPrefix replace srcFile =
     (let (ok, firstCodeLine, srcFile') = freadline srcFile
      in if \<not> ok then None
         else if starts_with firstCodeLine commentPrefix then
           if replace then Some (skip_comments commentPrefix srcFile')
           else Some (firstCodeLine, srcFile')
         else Some (firstCodeLine, srcFile'))"

text \<open>
  \<^verbatim>\<open>create_file\<close>, in the order of the source: the source file is opened, the question
  is asked, the destination is created, and only then the first line is read. Line 723
  gives \<^verbatim>\<open>wdul::fwrite\<close> the length of \<^verbatim>\<open>firstCodeLine\<close> cast to 32 bits, so
  that the first \<open>uint32_t (length firstCodeLine)\<close> bytes of the line are written. The
  result is the value returned and the state left; the destination file holds what was
  written to it.
\<close>

definition create_file :: "world \<Rightarrow> directory_argument \<Rightarrow> wstring \<Rightarrow> error + bool \<times> world" where
  "create_file s Directories Fname =
     (let srcPath = source_path Directories Fname;
          s1 = verbose_write (Opening srcPath) s
      in case fopen_existing s1 srcPath of
           Inl e \<Rightarrow> Inl e
         | Inr srcFile \<Rightarrow>
             (let s2 = verbose_write DoneMsg s1;
                  dstPath = destination_path Directories Fname
              in case confirm_overwrite s2 dstPath of
                   Inl e \<Rightarrow> Inl e
                 | Inr (go_on, s3) \<Rightarrow>
                     if \<not> go_on then Inr (False, s3)
                     else
                       (case fopen_create_always (verbose_write (Creating dstPath) s3) srcPath dstPath of
                          Inl e \<Rightarrow> Inl e
                        | Inr s4 \<Rightarrow>
                            (let s5 = verbose_write DoneMsg s4
                             in case first_code_line (mCommentPrefix s5) (mReplace s5) srcFile of
                                  None \<Rightarrow> Inr (True, cons_write (SourceEmpty Fname) s5)
                                | Some (firstCodeLine, srcFile') \<Rightarrow>
                                    (let dstFile1 = write_notice (mCommentPrefix s5) (mNotice s5) 0 [];
                                         dstFile2 = fwrite dstFile1
                                           (take (uint32_t (length firstCodeLine)) firstCodeLine);
                                         dstFile3 = fwrite dstFile2 newline;
                                         dstFile4 = copy_rest srcFile' dstFile3
                                     in Inr (True, s5\<lparr>files := (files s5)(dstPath \<mapsto> dstFile4)\<rparr>))))))"

subsection \<open>\<^verbatim>\<open>iterate\<close> and \<^verbatim>\<open>execute\<close>\<close>

text \<open>
  The do-while loop of \<^verbatim>\<open>iterate\<close> (lines 601 to 615) over the entries found;
  \<open>filesCreated\<close> is the counter.
\<close>

fun iterate_loop ::
  "world \<Rightarrow> directory_argument \<Rightarrow> find_data list \<Rightarrow> 32 word \<Rightarrow> error + 32 word \<times> world" where
  "iterate_loop s Directories [] filesCreated = Inr (filesCreated, s)"
| "iterate_loop s Directories (findData # others) filesCreated =
     (if attr_hidden findData then iterate_loop s Directories others filesCreated
      else if attr_directory findData then iterate_loop s Directories others filesCreated
      else
        (case create_file s Directories (cFileName findData) of
           Inl e \<Rightarrow> Inl e
         | Inr (created, s') \<Rightarrow>
             iterate_loop s' Directories others (if created then filesCreated + 1 else filesCreated)))"

definition iterate :: "world \<Rightarrow> directory_argument \<Rightarrow> wstring \<Rightarrow> error + 32 word \<times> world" where
  "iterate s Directories Extension =
     (let targetFilename =
            src Directories @ (if src Directories \<noteq> [] then [backslash] else []) @ ''*.'' @ Extension;
          s1 = verbose_write (ExecutingForTarget targetFilename) s
      in case found s1 targetFilename of
           Inl error \<Rightarrow>
             if error = ERROR_FILE_NOT_FOUND
             then Inr (0, cons_write (CouldNotFindTarget targetFilename) s1)
             else Inl (Win32Error error ''FindFirstFile failed'')
         | Inr (findData, others, errorCode) \<Rightarrow>
             (case iterate_loop s1 Directories (findData # others) 0 of
                Inl e \<Rightarrow> Inl e
              | Inr (filesCreated, s2) \<Rightarrow>
                  if errorCode = ERROR_NO_MORE_FILES
                  then Inr (filesCreated, cons_write (FinishedTarget targetFilename filesCreated) s2)
                  else Inl (Win32Error errorCode ''Failed to find the next target file'')))"

text \<open>The two nested loops of \<^verbatim>\<open>execute\<close>, inner first.\<close>

fun execute_extensions ::
  "world \<Rightarrow> directory_argument \<Rightarrow> wstring list \<Rightarrow> 32 word \<Rightarrow> error + 32 word \<times> world" where
  "execute_extensions s directories [] filesCreated = Inr (filesCreated, s)"
| "execute_extensions s directories (extension # extensions) filesCreated =
     (case iterate s directories extension of
        Inl e \<Rightarrow> Inl e
      | Inr (n, s') \<Rightarrow> execute_extensions s' directories extensions (filesCreated + n))"

fun execute_directories ::
  "world \<Rightarrow> directory_argument list \<Rightarrow> 32 word \<Rightarrow> error + 32 word \<times> world" where
  "execute_directories s [] filesCreated = Inr (filesCreated, s)"
| "execute_directories s (directories # others) filesCreated =
     (case execute_extensions s directories (mExtensions s) filesCreated of
        Inl e \<Rightarrow> Inl e
      | Inr (filesCreated', s') \<Rightarrow> execute_directories s' others filesCreated')"

definition execute :: "world \<Rightarrow> error + world" where
  "execute s =
     (case execute_directories s (mDirectories s) 0 of
        Inl e \<Rightarrow> Inl e
      | Inr (filesCreated, s') \<Rightarrow> Inr (cons_write (DoneCreated filesCreated) s'))"

subsection \<open>\<^verbatim>\<open>target_directories\<close> and the directory loops of \<^verbatim>\<open>init\<close>\<close>

text \<open>
  Line 533: the entry is the current or the parent directory. \<^verbatim>\<open>cFileName\<close> is a
  null-terminated string, so the test on its first characters is a test for the two
  names.
\<close>

definition is_dot_entry :: "wstring \<Rightarrow> bool" where
  "is_dot_entry name = (name = ''.'' \<or> name = ''..'')"

text \<open>Line 512: the search string for the entries of the source directory.\<close>

definition search_string :: "directory_argument \<Rightarrow> wstring" where
  "search_string Directories =
     src Directories @ (if src Directories = [] then ''*'' else [backslash, CHR ''*''])"

text \<open>
  Lines 539 to 543: the pair for a subdirectory, the name of the entry appended to the
  source and to the destination.
\<close>

definition new_directory :: "directory_argument \<Rightarrow> wstring \<Rightarrow> directory_argument" where
  "new_directory Directories name =
     \<lparr>src = (if src Directories \<noteq> [] then src Directories @ [backslash] else src Directories) @ name,
      dst = dst Directories @ [backslash] @ name\<rparr>"

text \<open>
  \<^verbatim>\<open>target_directories\<close> calls itself for every subdirectory it finds, and what it
  finds is the answer of the file system: the recursion is bounded by \<open>fuel\<close>, the
  depth of calls allowed, and \<open>None\<close> says that the bound was reached. The second
  function is the do-while loop (lines 521 to 547) with the check of the last error
  after it (lines 549 to 553). \<open>NewDirectories\<close> is the vector passed by reference.
\<close>

fun target_directories ::
  "nat \<Rightarrow> world \<Rightarrow> directory_argument \<Rightarrow> directory_argument list \<Rightarrow>
   (error + directory_argument list \<times> world) option"
and target_directories_loop ::
  "nat \<Rightarrow> world \<Rightarrow> directory_argument \<Rightarrow> find_data list \<Rightarrow> win32_error \<Rightarrow>
   directory_argument list \<Rightarrow> (error + directory_argument list \<times> world) option"
where
  "target_directories 0 s Directories NewDirectories = None"
| "target_directories (Suc fuel) s Directories NewDirectories =
     (let s1 = cons_write (TargetDirectory (src Directories) (dst Directories)) s
      in if \<not> mRecurse s1 then Some (Inr (NewDirectories, s1))
         else
           (let searchString = search_string Directories
            in case found s1 searchString of
                 Inl e \<Rightarrow> Some (Inl (Win32Error e ''FindFirstFile failed''))
               | Inr (findData, entries, errorCode) \<Rightarrow>
                   target_directories_loop fuel s1 Directories (findData # entries) errorCode NewDirectories))"
| "target_directories_loop fuel s Directories [] errorCode NewDirectories =
     (if errorCode \<noteq> ERROR_NO_MORE_FILES then Some (Inl (Win32Error errorCode ''FindNextFile failed''))
      else Some (Inr (NewDirectories, s)))"
| "target_directories_loop fuel s Directories (findData # entries) errorCode NewDirectories =
     (if \<not> attr_directory findData
      then target_directories_loop fuel s Directories entries errorCode NewDirectories
      else if attr_hidden findData
      then target_directories_loop fuel s Directories entries errorCode NewDirectories
      else if is_dot_entry (cFileName findData)
      then target_directories_loop fuel s Directories entries errorCode NewDirectories
      else
        (let newDirectory = new_directory Directories (cFileName findData)
         in case target_directories fuel s newDirectory (NewDirectories @ [newDirectory]) of
              None \<Rightarrow> None
            | Some (Inl e) \<Rightarrow> Some (Inl e)
            | Some (Inr (NewDirectories', s')) \<Rightarrow>
                target_directories_loop fuel s' Directories entries errorCode NewDirectories'))"

text \<open>Lines 460 to 464 of \<^verbatim>\<open>init\<close>: every configured pair is expanded.\<close>

fun init_target_loop ::
  "nat \<Rightarrow> world \<Rightarrow> directory_argument list \<Rightarrow> directory_argument list \<Rightarrow>
   (error + directory_argument list \<times> world) option" where
  "init_target_loop fuel s [] newDirectories = Some (Inr (newDirectories, s))"
| "init_target_loop fuel s (directories # others) newDirectories =
     (case target_directories fuel s directories newDirectories of
        None \<Rightarrow> None
      | Some (Inl e) \<Rightarrow> Some (Inl e)
      | Some (Inr (newDirectories', s')) \<Rightarrow> init_target_loop fuel s' others newDirectories')"

text \<open>
  Lines 469 to 476: the inner loop over \<^verbatim>\<open>mDirectories\<close>, which reports every pair with
  the same source and does not stop at the first.
\<close>

fun init_already_targeted ::
  "world \<Rightarrow> directory_argument list \<Rightarrow> directory_argument \<Rightarrow> bool \<Rightarrow> bool \<times> world" where
  "init_already_targeted s [] newDirectoryArg alreadyTargeted = (alreadyTargeted, s)"
| "init_already_targeted s (directories # others) newDirectoryArg alreadyTargeted =
     (if src directories = src newDirectoryArg
      then init_already_targeted (cons_write (AlreadyTargeted (src newDirectoryArg)) s) others newDirectoryArg True
      else init_already_targeted s others newDirectoryArg alreadyTargeted)"

text \<open>Lines 466 to 478: the new pairs are appended unless their source is targeted.\<close>

fun init_add_loop :: "world \<Rightarrow> directory_argument list \<Rightarrow> world" where
  "init_add_loop s [] = s"
| "init_add_loop s (newDirectoryArg # others) =
     (let (alreadyTargeted, s') = init_already_targeted s (mDirectories s) newDirectoryArg False
      in init_add_loop
           (if \<not> alreadyTargeted then s'\<lparr>mDirectories := mDirectories s' @ [newDirectoryArg]\<rparr> else s')
           others)"

text \<open>
  Lines 460 to 478 of \<^verbatim>\<open>init\<close>, after the command line has been read into the
  members.
\<close>

definition init_directories :: "nat \<Rightarrow> world \<Rightarrow> (error + world) option" where
  "init_directories fuel s =
     (case init_target_loop fuel s (mDirectories s) [] of
        None \<Rightarrow> None
      | Some (Inl e) \<Rightarrow> Some (Inl e)
      | Some (Inr (newDirectories, s')) \<Rightarrow> Some (Inr (init_add_loop s' newDirectories)))"

section \<open>Notions for stating the properties\<close>

subsection \<open>The notice and the source as the spec words them\<close>

text \<open>
  The spec: "Split \<open>notice\<close> into lines on CRLF boundaries; for each line, write
  \<open>prefix\<close> followed by the line's bytes followed by a CRLF terminator". The segments
  of a text are what stands between its CR LF pairs, read from the left; a text with
  \<open>n\<close> pairs has \<open>n + 1\<close> segments, the last one empty when the text ends with a pair.
\<close>

fun crlf_segments :: "u8string \<Rightarrow> u8string list" where
  "crlf_segments [] = [[]]"
| "crlf_segments [c] = [[c]]"
| "crlf_segments (c # d # cs) =
     (if c = CR \<and> d = LF then [] # crlf_segments cs
      else (case crlf_segments (d # cs) of
              seg # segs \<Rightarrow> (c # seg) # segs
            | [] \<Rightarrow> [[c]]))"

text \<open>The comment lines of the notice, one for each segment, in their order.\<close>

definition notice_block :: "u8string \<Rightarrow> u8string \<Rightarrow> u8string" where
  "notice_block commentPrefix notice =
     concat (map (\<lambda>segment. commentPrefix @ segment @ newline) (crlf_segments notice))"

text \<open>Segments put together again, with a CR LF between two neighbours.\<close>

fun join_crlf :: "u8string list \<Rightarrow> u8string" where
  "join_crlf [] = []"
| "join_crlf [segment] = segment"
| "join_crlf (segment # next_segment # segments) =
     segment @ newline @ join_crlf (next_segment # segments)"

text \<open>A segment holds no CR LF: the search of the code finds none in it.\<close>

definition crlf_free :: "u8string \<Rightarrow> bool" where
  "crlf_free segment = (find_crlf segment 0 = None)"

text \<open>
  The spec's "source content with all leading \<open>prefix\<close>-prefixed lines stripped": lines
  are taken off the front, as \<open>freadline\<close> delivers them, while they start with the
  prefix.
\<close>

function strip_leading_comments :: "u8string \<Rightarrow> u8string \<Rightarrow> u8string" where
  "strip_leading_comments commentPrefix content =
     (let (ok, line, rest) = freadline content
      in if ok \<and> starts_with line commentPrefix then strip_leading_comments commentPrefix rest
         else content)"
  by pat_completeness auto

termination strip_leading_comments
proof (relation "measure (\<lambda>(commentPrefix, content). length content)")
  show "wf (measure (\<lambda>(commentPrefix, content). length content))"
    by simp
next
  fix commentPrefix content :: u8string and x :: "bool \<times> u8string \<times> u8string"
    and ok :: bool and y :: "u8string \<times> u8string" and line rest :: u8string
  assume "x = freadline content" "(ok, y) = x" "(line, rest) = y" "ok \<and> starts_with line commentPrefix"
  then have "freadline content = (True, line, rest)"
    by simp
  from freadline_shorter [OF this]
  show "((commentPrefix, rest), (commentPrefix, content)) \<in> measure (\<lambda>(commentPrefix, content). length content)"
    by simp
qed

declare strip_leading_comments.simps [simp del]

subsection \<open>The effect of \<^verbatim>\<open>create_file\<close> on the state\<close>

text \<open>
  The bytes that \<^verbatim>\<open>create_file\<close> leaves in the destination file for a source file
  with the bytes \<open>content\<close>: nothing for an empty source, and else the notice, the
  bytes of the first code line that line 723 writes (its length taken to 32 bits), a
  CR LF, and the rest of the source.
\<close>

definition rewritten :: "world \<Rightarrow> u8string \<Rightarrow> u8string" where
  "rewritten s content =
     (case first_code_line (mCommentPrefix s) (mReplace s) content of
        None \<Rightarrow> []
      | Some (firstCodeLine, rest) \<Rightarrow>
          notice_block (mCommentPrefix s) (mNotice s)
          @ take (uint32_t (length firstCodeLine)) firstCodeLine @ newline @ rest)"

text \<open>
  The destination file after a call of \<^verbatim>\<open>create_file\<close>: \<open>None\<close> when the call throws
  or leaves no file at the destination path.
\<close>

definition destination_after :: "world \<Rightarrow> directory_argument \<Rightarrow> wstring \<Rightarrow> u8string option" where
  "destination_after s Directories Fname =
     (case create_file s Directories Fname of
        Inl e \<Rightarrow> None
      | Inr (created, s') \<Rightarrow> files s' (destination_path Directories Fname))"

text \<open>
  Two states have the same settings when they agree on the members that the command
  line sets and on what the file system answers apart from the content of files.
\<close>

definition same_settings :: "world \<Rightarrow> world \<Rightarrow> bool" where
  "same_settings s s' =
     (mRecurse s' = mRecurse s \<and> mVerbose s' = mVerbose s \<and> mReplace s' = mReplace s \<and>
      mCommentPrefix s' = mCommentPrefix s \<and> mDirectories s' = mDirectories s \<and>
      mExtensions s' = mExtensions s \<and> mNotice s' = mNotice s \<and>
      access_denied s' = access_denied s \<and> found s' = found s)"

text \<open>What \<^verbatim>\<open>ask_yesno\<close> returns in a state, if it returns.\<close>

definition answer :: "world \<Rightarrow> bool option" where
  "answer s = (case ask_yesno s of Inl e \<Rightarrow> None | Inr (a, s') \<Rightarrow> Some a)"

text \<open>How often the overwrite question has been put.\<close>

definition questions :: "world \<Rightarrow> nat" where
  "questions s = count_list (written (mCons s)) OverwriteQuestion"

text \<open>The state in which \<^verbatim>\<open>create_file\<close> puts the question.\<close>

definition at_question :: "world \<Rightarrow> directory_argument \<Rightarrow> wstring \<Rightarrow> world" where
  "at_question s Directories Fname =
     verbose_write DoneMsg (verbose_write (Opening (source_path Directories Fname)) s)"

text \<open>
  The state that \<^verbatim>\<open>create_file\<close> returns after it has created the destination in the
  state \<open>s3\<close>, for a source file with the bytes \<open>content\<close>.
\<close>

definition after_creation :: "world \<Rightarrow> directory_argument \<Rightarrow> wstring \<Rightarrow> u8string \<Rightarrow> world" where
  "after_creation s3 Directories Fname content =
     (let dstPath = destination_path Directories Fname;
          s4 = (verbose_write (Creating dstPath) s3)\<lparr>files := (files s3)(dstPath \<mapsto> [])\<rparr>;
          s5 = verbose_write DoneMsg s4
      in if content = [] then cons_write (SourceEmpty Fname) s5
         else s5\<lparr>files := (files s5)(dstPath \<mapsto> rewritten s3 content)\<rparr>)"

text \<open>
  From \<open>s\<close> to \<open>s'\<close> the user was not asked: the policy is "always overwrite" in
  \<open>s'\<close>, no string was read from the console, and the overwrite question was not
  written.
\<close>

definition unasked :: "world \<Rightarrow> world \<Rightarrow> bool" where
  "unasked s s' =
     (mAlwaysOverwriteFiles s' \<and> pending (mCons s') = pending (mCons s) \<and> questions s' = questions s)"

subsection \<open>The directories\<close>

text \<open>
  The entries for which \<^verbatim>\<open>target_directories\<close> makes a pair: directories that are not
  hidden and are not the current or the parent directory.
\<close>

definition eligible :: "find_data \<Rightarrow> bool" where
  "eligible findData =
     (attr_directory findData \<and> \<not> attr_hidden findData \<and> \<not> is_dot_entry (cFileName findData))"

text \<open>\<^verbatim>\<open>target_directories\<close> writes to the console and changes nothing else.\<close>

definition console_only :: "world \<Rightarrow> world \<Rightarrow> bool" where
  "console_only s s' =
     (same_settings s s' \<and> files s' = files s \<and>
      mAlwaysOverwriteFiles s' = mAlwaysOverwriteFiles s \<and>
      pending (mCons s') = pending (mCons s))"

text \<open>
  The names of the subdirectories that \<^verbatim>\<open>target_directories\<close> goes into when it lists
  a pair: \<open>None\<close> when the enumeration fails.
\<close>

definition subdirectories :: "world \<Rightarrow> directory_argument \<Rightarrow> wstring list option" where
  "subdirectories s Directories =
     (case found s (search_string Directories) of
        Inl e \<Rightarrow> None
      | Inr (findData, entries, errorCode) \<Rightarrow>
          if errorCode = ERROR_NO_MORE_FILES
          then Some (map cFileName (filter eligible (findData # entries)))
          else None)"

subsection \<open>Runs for the examples\<close>

text \<open>
  A run for the examples: the default instance with a notice, on a disk where every
  path can be opened and no enumeration finds anything.
\<close>

definition example_directories :: directory_argument where
  "example_directories = \<lparr>src = ''in'', dst = ''out''\<rparr>"

definition example_world :: "u8string \<Rightarrow> wstring list \<Rightarrow> (wstring \<rightharpoonup> u8string) \<Rightarrow> world" where
  "example_world notice typed disk =
     (new_instance typed disk (\<lambda>path. False) (\<lambda>searchString. Inl ERROR_FILE_NOT_FOUND))
       \<lparr>mNotice := notice\<rparr>"

text \<open>
  A line of \<open>2^32\<close> bytes, the shortest whose length does not fit 32 bits.
\<close>

definition long_line :: u8string where
  "long_line = replicate (2 ^ 32) (CHR ''a'')"

text \<open>
  An enumeration for the examples: the directory \<open>in\<close> holds the two dot entries, the
  directories \<open>B\<close> and \<open>C\<close>, a hidden directory and a file; \<open>B\<close> and \<open>C\<close> hold
  the dot entries only.
\<close>

definition example_enumeration ::
  "wstring \<Rightarrow> win32_error + find_data \<times> find_data list \<times> win32_error" where
  "example_enumeration searchString =
     (if searchString = search_string example_directories then
        Inr (\<lparr>attr_directory = True, attr_hidden = False, cFileName = ''.''\<rparr>,
             [\<lparr>attr_directory = True, attr_hidden = False, cFileName = ''..''\<rparr>,
              \<lparr>attr_directory = True, attr_hidden = False, cFileName = ''B''\<rparr>,
              \<lparr>attr_directory = True, attr_hidden = True, cFileName = ''.git''\<rparr>,
              \<lparr>attr_directory = False, attr_hidden = False, cFileName = ''a.c''\<rparr>,
              \<lparr>attr_directory = True, attr_hidden = False, cFileName = ''C''\<rparr>],
             ERROR_NO_MORE_FILES)
      else if searchString = search_string (new_directory example_directories ''B'')
            \<or> searchString = search_string (new_directory example_directories ''C'') then
        Inr (\<lparr>attr_directory = True, attr_hidden = False, cFileName = ''.''\<rparr>,
             [\<lparr>attr_directory = True, attr_hidden = False, cFileName = ''..''\<rparr>],
             ERROR_NO_MORE_FILES)
      else Inl ERROR_FILE_NOT_FOUND)"

section \<open>Lemmas\<close>

subsection \<open>The 32-bit length of the first code line\<close>

lemma uint32_t_small: "n < 2 ^ 32 \<Longrightarrow> uint32_t n = n"
  by (simp add: uint32_t_def)

lemma take_uint32_t: "length l < 2 ^ 32 \<Longrightarrow> take (uint32_t (length l)) l = l"
  by (simp add: uint32_t_small)

lemma long_line_length: "length long_line = 2 ^ 32"
  by (simp add: long_line_def)

lemma long_line_written: "take (uint32_t (length long_line)) long_line = []"
  by (simp add: long_line_length uint32_t_def)

lemma long_line_LF: "LF \<notin> set long_line"
  by (simp add: long_line_def)

lemma long_line_Cons: "long_line = CHR ''a'' # replicate (2 ^ 32 - 1) (CHR ''a'')"
  unfolding long_line_def by (subst replicate_Suc [symmetric]) simp

lemma long_line_code: "\<not> starts_with long_line ''// ''"
  by (subst long_line_Cons) (simp add: starts_with_def)


subsection \<open>The loops of \<^verbatim>\<open>create_file\<close>\<close>

lemma copy_rest_eq: "copy_rest srcFile dstFile = dstFile @ srcFile"
proof (induction srcFile dstFile rule: copy_rest.induct)
  case (1 srcFile dstFile)
  show ?case
  proof (cases "take 64 srcFile = []")
    case True
    then show ?thesis by (subst copy_rest.simps) (simp add: fread_def)
  next
    case False
    have "copy_rest (drop 64 srcFile) (fwrite dstFile (take 64 srcFile))
          = fwrite dstFile (take 64 srcFile) @ drop 64 srcFile"
      using False by (intro 1 [of "fread srcFile 64" "take 64 srcFile" "drop 64 srcFile"]) (simp_all add: fread_def)
    with False show ?thesis by (subst copy_rest.simps) (simp add: fread_def fwrite_def)
  qed
qed

lemma crlf_segments_nonempty: "crlf_segments cs \<noteq> []"
  by (induction cs rule: crlf_segments.induct) (simp_all split: list.splits)

lemma crlf_segments_none:
  "find_crlf_from cs i = None \<Longrightarrow> crlf_segments cs = [cs]"
proof (induction cs i rule: find_crlf_from.induct)
  case (1 c d cs i)
  then show ?case by (simp split: if_splits)
qed simp_all

lemma crlf_segments_some:
  "find_crlf_from cs i = Some p \<Longrightarrow>
   crlf_segments cs = take (p - i) cs # crlf_segments (drop (p - i + 2) cs)"
proof (induction cs i arbitrary: p rule: find_crlf_from.induct)
  case (1 c d cs i)
  show ?case
  proof (cases "c = CR \<and> d = LF")
    case True
    with 1(2) show ?thesis by simp
  next
    case False
    with 1(2) have f: "find_crlf_from (d # cs) (Suc i) = Some p" by simp
    from find_crlf_from_bounds [OF f] have "Suc i \<le> p" by simp
    then have e: "p - i = Suc (p - Suc i)" by simp
    from 1(1) [OF False f] False show ?thesis
      by (simp add: e)
  qed
qed simp_all

lemma write_notice_eq:
  "noticeOffset \<le> length notice \<Longrightarrow>
   write_notice commentPrefix notice noticeOffset dstFile =
   dstFile @ notice_block commentPrefix (drop noticeOffset notice)"
proof (induction commentPrefix notice noticeOffset dstFile rule: write_notice.induct)
  case (1 commentPrefix notice noticeOffset dstFile)
  show ?case
  proof (cases "find_crlf notice noticeOffset")
    case None
    with 1(2) have "find_crlf_from (drop noticeOffset notice) noticeOffset = None"
      by (simp add: find_crlf_def)
    from crlf_segments_none [OF this] None show ?thesis
      by (subst write_notice.simps) (simp add: notice_block_def fwrite_def)
  next
    case (Some p)
    from find_crlf_bounds [OF Some] have b: "noticeOffset \<le> p" "p + 2 \<le> length notice" by simp_all
    from Some 1(2) have "find_crlf_from (drop noticeOffset notice) noticeOffset = Some p"
      by (simp add: find_crlf_def)
    from crlf_segments_some [OF this] b
    have seg: "crlf_segments (drop noticeOffset notice) =
        take (p - noticeOffset) (drop noticeOffset notice) # crlf_segments (drop (p + 2) notice)"
      by (simp add: add.commute)
    let ?d = "dstFile @ commentPrefix @ take (p - noticeOffset) (drop noticeOffset notice) @ newline"
    from b have ne: "p \<noteq> length notice" by simp
    have step: "write_notice commentPrefix notice noticeOffset dstFile =
                write_notice commentPrefix notice (p + 2) ?d"
      by (subst write_notice.simps) (simp add: Some ne fwrite_def)
    have ih: "write_notice commentPrefix notice (p + 2) ?d =
              ?d @ notice_block commentPrefix (drop (p + 2) notice)"
      using 1(1) [of p "fwrite dstFile commentPrefix"
          "fwrite (fwrite dstFile commentPrefix) (take (p - noticeOffset) (drop noticeOffset notice))" ?d]
        Some b ne
      by (simp add: fwrite_def)
    show ?thesis
      unfolding step ih by (simp add: seg notice_block_def)
  qed
qed

lemma write_notice_block:
  "write_notice commentPrefix notice 0 [] = notice_block commentPrefix notice"
  by (simp add: write_notice_eq)

lemma takeWhile_line: "LF \<notin> set line \<Longrightarrow> takeWhile (\<lambda>c. c \<noteq> LF) (line @ LF # rest) = line"
  by (induction line) auto


lemma freadline_empty: "freadline [] = (False, [], [])"
  by (simp add: freadline_def)

lemma freadline_crlf:
  assumes "LF \<notin> set line"
  shows "freadline (line @ newline @ rest) = (True, line, rest)"
proof -
  have "LF \<notin> set (line @ [CR])" using assms by simp
  from takeWhile_line [OF this, of rest]
  have t: "takeWhile (\<lambda>c. c \<noteq> LF) (line @ newline @ rest) = line @ [CR]"
    by (simp add: newline_def)
  show ?thesis
    unfolding freadline_def Let_def t by (simp add: newline_def)
qed



lemma freadline_ok: "fst (freadline bs) = (bs \<noteq> [])"
  by (simp add: freadline_def Let_def)


lemma skip_comments_code:
  assumes "LF \<notin> set line" and "\<not> starts_with line p"
  shows "skip_comments p (line @ newline @ rest) = (line, rest)"
  by (subst skip_comments.simps) (simp add: freadline_crlf [OF assms(1)] assms(2))

lemma skip_comments_comment:
  assumes "LF \<notin> set c" and "starts_with c p"
  shows "skip_comments p (c @ newline @ rest) = skip_comments p rest"
  by (subst skip_comments.simps) (simp add: freadline_crlf [OF assms(1)] assms(2))

lemma skip_comments_block:
  "\<forall>c\<in>set cs. starts_with c p \<and> LF \<notin> set c \<Longrightarrow>
   skip_comments p (concat (map (\<lambda>c. c @ newline) cs) @ bs) = skip_comments p bs"
  by (induction cs) (simp_all add: skip_comments_comment)


lemma first_code_line_empty: "first_code_line p replace [] = None"
  by (simp add: first_code_line_def freadline_empty)

lemma first_code_line_nonempty:
  "bs \<noteq> [] \<Longrightarrow> \<exists>l r. first_code_line p replace bs = Some (l, r)"
  using freadline_ok [of bs]
  by (cases "freadline bs") (auto simp: first_code_line_def split: prod.splits)

lemma first_code_line_None: "first_code_line p replace bs = None \<longleftrightarrow> bs = []"
proof (cases "bs = []")
  case True
  then show ?thesis by (simp add: first_code_line_empty)
next
  case False
  from first_code_line_nonempty [OF this, of p replace] False show ?thesis by auto
qed


subsection \<open>What a call of \<^verbatim>\<open>create_file\<close> changes\<close>

lemma same_settings_refl [simp]: "same_settings s s"
  by (simp add: same_settings_def)

lemma same_settings_trans: "same_settings s t \<Longrightarrow> same_settings t u \<Longrightarrow> same_settings s u"
  by (simp add: same_settings_def)

lemma cons_write_fields [simp]:
  "files (cons_write m s) = files s"
  "mAlwaysOverwriteFiles (cons_write m s) = mAlwaysOverwriteFiles s"
  "pending (mCons (cons_write m s)) = pending (mCons s)"
  "written (mCons (cons_write m s)) = written (mCons s) @ [m]"
  "same_settings s (cons_write m s)"
  by (simp_all add: cons_write_def same_settings_def)

lemma verbose_write_fields [simp]:
  "files (verbose_write m s) = files s"
  "mAlwaysOverwriteFiles (verbose_write m s) = mAlwaysOverwriteFiles s"
  "pending (mCons (verbose_write m s)) = pending (mCons s)"
  "written (mCons (verbose_write m s)) = written (mCons s) @ (if mVerbose s then [m] else [])"
  "same_settings s (verbose_write m s)"
  by (simp_all add: verbose_write_def)

lemma same_settings_fields:
  assumes "same_settings s s'"
  shows "mRecurse s' = mRecurse s" "mVerbose s' = mVerbose s" "mReplace s' = mReplace s"
    "mCommentPrefix s' = mCommentPrefix s" "mDirectories s' = mDirectories s"
    "mExtensions s' = mExtensions s" "mNotice s' = mNotice s"
    "access_denied s' = access_denied s" "found s' = found s"
  using assms by (simp_all add: same_settings_def)

lemma ask_yesno_loop_Inr:
  "ask_yesno_loop typed out = Inr (a, t, out') \<Longrightarrow> \<exists>out2'. ask_yesno_loop typed out2 = Inr (a, t, out2')"
proof (induction typed arbitrary: out out2)
  case Nil
  then show ?case by simp
next
  case (Cons last_read typed)
  show ?case
  proof (cases "last_read = ''y'' \<or> last_read = ''yes'' \<or> last_read = ''n'' \<or> last_read = ''no''")
    case True
    with Cons.prems show ?thesis by (auto split: if_splits)
  next
    case False
    with Cons.prems have "ask_yesno_loop typed (out @ [Prompt, InvalidInput]) = Inr (a, t, out')"
      by simp
    from Cons.IH [OF this, of "out2 @ [Prompt, InvalidInput]"] False show ?thesis by simp
  qed
qed

lemma ask_yesno_loop_Inl:
  "ask_yesno_loop typed out = Inl e \<Longrightarrow> ask_yesno_loop typed out2 = Inl e"
proof (induction typed arbitrary: out out2)
  case Nil
  then show ?case by simp
next
  case (Cons last_read typed)
  show ?case
  proof (cases "last_read = ''y'' \<or> last_read = ''yes'' \<or> last_read = ''n'' \<or> last_read = ''no''")
    case True
    with Cons.prems show ?thesis by (auto split: if_splits)
  next
    case False
    with Cons.prems have "ask_yesno_loop typed (out @ [Prompt, InvalidInput]) = Inl e"
      by simp
    from Cons.IH [OF this, of "out2 @ [Prompt, InvalidInput]"] False show ?thesis by simp
  qed
qed

lemma ask_yesno_loop_count:
  "ask_yesno_loop typed out = Inr (a, t, out') \<Longrightarrow>
   count_list out' OverwriteQuestion = count_list out OverwriteQuestion"
  by (induction typed out rule: ask_yesno_loop.induct) (auto split: if_splits)

lemma answer_pending:
  assumes "pending (mCons s') = pending (mCons s)"
  shows "answer s' = answer s"
proof (cases "ask_yesno_loop (pending (mCons s)) (written (mCons s))")
  case (Inl e)
  from ask_yesno_loop_Inl [OF this, of "written (mCons s')"] Inl assms
  show ?thesis by (simp add: answer_def ask_yesno_def)
next
  case (Inr r)
  then obtain a t out' where r: "ask_yesno_loop (pending (mCons s)) (written (mCons s)) = Inr (a, t, out')"
    by (cases r) auto
  from ask_yesno_loop_Inr [OF this, of "written (mCons s')"] r assms
  show ?thesis by (auto simp: answer_def ask_yesno_def)
qed

lemma answer_writes [simp]:
  "answer (cons_write m s) = answer s"
  "answer (verbose_write m s) = answer s"
  by (rule answer_pending, simp)+

lemma ask_yesno_fields:
  assumes "ask_yesno s = Inr (a, s')"
  shows "files s' = files s" "mAlwaysOverwriteFiles s' = mAlwaysOverwriteFiles s"
    "same_settings s s'" "questions s' = questions s" "answer s = Some a"
  using assms ask_yesno_loop_count [of "pending (mCons s)" "written (mCons s)"]
  by (auto simp: ask_yesno_def answer_def same_settings_def questions_def split: sum.splits)

lemma ask_yesno_answer:
  "answer s = Some a \<Longrightarrow> \<exists>s'. ask_yesno s = Inr (a, s')"
  by (auto simp: answer_def split: sum.splits)

lemma fopen_existing_Inr:
  "fopen_existing s path = Inr bytes \<longleftrightarrow> files s path = Some bytes \<and> \<not> access_denied s path"
  by (auto simp: fopen_existing_def split: option.splits)

lemma fopen_create_always_Inr:
  "fopen_create_always s held path = Inr s' \<longleftrightarrow>
   path \<noteq> held \<and> \<not> access_denied s path \<and> s' = s\<lparr>files := (files s)(path \<mapsto> [])\<rparr>"
  by (auto simp: fopen_create_always_def)

lemma confirm_overwrite_always:
  "mAlwaysOverwriteFiles s \<Longrightarrow> confirm_overwrite s dstPath = Inr (True, s)"
  by (simp add: confirm_overwrite_def)

lemma confirm_overwrite_absent:
  "\<not> fexists s dstPath \<Longrightarrow> confirm_overwrite s dstPath = Inr (True, s)"
  by (simp add: confirm_overwrite_def)

lemma confirm_overwrite_asked:
  assumes "\<not> mAlwaysOverwriteFiles s" and "fexists s dstPath" and "answer s = Some a"
  shows "\<exists>s'. confirm_overwrite s dstPath = Inr (a, s') \<and> files s' = files s \<and>
              same_settings s s' \<and> mAlwaysOverwriteFiles s' = a \<and>
              questions s' = Suc (questions s)"
proof -
  let ?q = "cons_write OverwriteQuestion (cons_write (FileExists dstPath) s)"
  from assms(3) have "answer ?q = Some a" by simp
  from ask_yesno_answer [OF this] obtain t where t: "ask_yesno ?q = Inr (a, t)" by blast
  from ask_yesno_fields [OF t]
  have f: "files t = files s" "mAlwaysOverwriteFiles t = mAlwaysOverwriteFiles s"
    "same_settings ?q t" "questions t = questions ?q"
    by simp_all
  have "same_settings s ?q"
    by (rule same_settings_trans [of s "cons_write (FileExists dstPath) s"]) simp_all
  from same_settings_trans [OF this f(3)] have ss: "same_settings s t" .
  have q: "questions ?q = Suc (questions s)" by (simp add: questions_def)
  show ?thesis
  proof (cases a)
    case True
    with assms t f ss q show ?thesis
      by (simp add: confirm_overwrite_def same_settings_def questions_def)
  next
    case False
    with assms t f ss q show ?thesis
      by (simp add: confirm_overwrite_def)
  qed
qed

lemma confirm_overwrite_fields:
  assumes "confirm_overwrite s dstPath = Inr (go_on, s')"
  shows "files s' = files s" "same_settings s s'"
    "mAlwaysOverwriteFiles s' = (mAlwaysOverwriteFiles s \<or> fexists s dstPath \<and> answer s = Some True)"
    "\<not> go_on \<longleftrightarrow> \<not> mAlwaysOverwriteFiles s \<and> fexists s dstPath \<and> answer s = Some False"
proof -
  consider (always) "mAlwaysOverwriteFiles s" | (absent) "\<not> mAlwaysOverwriteFiles s" "\<not> fexists s dstPath"
    | (asked) "\<not> mAlwaysOverwriteFiles s" "fexists s dstPath"
    by blast
  then have "files s' = files s \<and> same_settings s s' \<and>
    mAlwaysOverwriteFiles s' = (mAlwaysOverwriteFiles s \<or> fexists s dstPath \<and> answer s = Some True) \<and>
    (\<not> go_on \<longleftrightarrow> \<not> mAlwaysOverwriteFiles s \<and> fexists s dstPath \<and> answer s = Some False)"
  proof cases
    case always
    with assms show ?thesis by (simp add: confirm_overwrite_always)
  next
    case absent
    with assms show ?thesis by (simp add: confirm_overwrite_absent)
  next
    case asked
    let ?q = "cons_write OverwriteQuestion (cons_write (FileExists dstPath) s)"
    from assms asked obtain a t where "ask_yesno ?q = Inr (a, t)"
      by (cases "ask_yesno ?q") (auto simp: confirm_overwrite_def)
    from ask_yesno_fields(5) [OF this] have a: "answer s = Some a" by simp
    from confirm_overwrite_asked [OF asked a] assms asked a show ?thesis by auto
  qed
  then show "files s' = files s" "same_settings s s'"
    "mAlwaysOverwriteFiles s' = (mAlwaysOverwriteFiles s \<or> fexists s dstPath \<and> answer s = Some True)"
    "\<not> go_on \<longleftrightarrow> \<not> mAlwaysOverwriteFiles s \<and> fexists s dstPath \<and> answer s = Some False"
    by simp_all
qed

lemma cons_write_settings [simp]:
  "mRecurse (cons_write m s) = mRecurse s" "mVerbose (cons_write m s) = mVerbose s"
  "mReplace (cons_write m s) = mReplace s" "mCommentPrefix (cons_write m s) = mCommentPrefix s"
  "mDirectories (cons_write m s) = mDirectories s" "mExtensions (cons_write m s) = mExtensions s"
  "mNotice (cons_write m s) = mNotice s" "access_denied (cons_write m s) = access_denied s"
  "found (cons_write m s) = found s"
  by (simp_all add: cons_write_def)

lemma verbose_write_settings [simp]:
  "mRecurse (verbose_write m s) = mRecurse s" "mVerbose (verbose_write m s) = mVerbose s"
  "mReplace (verbose_write m s) = mReplace s" "mCommentPrefix (verbose_write m s) = mCommentPrefix s"
  "mDirectories (verbose_write m s) = mDirectories s" "mExtensions (verbose_write m s) = mExtensions s"
  "mNotice (verbose_write m s) = mNotice s" "access_denied (verbose_write m s) = access_denied s"
  "found (verbose_write m s) = found s"
  by (simp_all add: verbose_write_def)

lemma questions_writes [simp]:
  "m \<noteq> OverwriteQuestion \<Longrightarrow> questions (cons_write m s) = questions s"
  "m \<noteq> OverwriteQuestion \<Longrightarrow> questions (verbose_write m s) = questions s"
  by (simp_all add: questions_def)

lemma fexists_writes [simp]:
  "fexists (cons_write m s) path = fexists s path"
  "fexists (verbose_write m s) path = fexists s path"
  by (simp_all add: fexists_def)

lemma create_file_unfold:
  "create_file s Directories Fname =
     (case fopen_existing s (source_path Directories Fname) of
        Inl e \<Rightarrow> Inl e
      | Inr content \<Rightarrow>
          (case confirm_overwrite (at_question s Directories Fname) (destination_path Directories Fname) of
             Inl e \<Rightarrow> Inl e
           | Inr (go_on, s3) \<Rightarrow>
               if \<not> go_on then Inr (False, s3)
               else if destination_path Directories Fname = source_path Directories Fname
                       \<or> access_denied s3 (destination_path Directories Fname)
               then Inl (IoError (destination_path Directories Fname))
               else Inr (True, after_creation s3 Directories Fname content)))"
proof -
  have o: "fopen_existing (verbose_write m s) p = fopen_existing s p" for m p
    by (simp add: fopen_existing_def split: option.splits)
  have w: "write_notice p n 0 [] = notice_block p n" for p n
    by (rule write_notice_block)
  have e: "first_code_line p r content = None \<longleftrightarrow> content = []" for p r content
    by (rule first_code_line_None)
  show ?thesis
    unfolding create_file_def Let_def o at_question_def
    by (auto simp: fopen_create_always_def after_creation_def rewritten_def Let_def w e
          copy_rest_eq fwrite_def first_code_line_empty
          split: sum.splits prod.splits option.splits)
qed

lemma rewritten_empty [simp]: "rewritten s [] = []"
  by (simp add: rewritten_def first_code_line_empty)

lemma rewritten_same_settings:
  "same_settings s s' \<Longrightarrow> rewritten s' content = rewritten s content"
  by (simp add: rewritten_def same_settings_def split: option.splits)

lemma at_question_fields [simp]:
  "files (at_question s D f) = files s"
  "mAlwaysOverwriteFiles (at_question s D f) = mAlwaysOverwriteFiles s"
  "pending (mCons (at_question s D f)) = pending (mCons s)"
  "questions (at_question s D f) = questions s"
  "fexists (at_question s D f) path = fexists s path"
  "answer (at_question s D f) = answer s"
  "access_denied (at_question s D f) = access_denied s"
  by (simp_all add: at_question_def)

lemma at_question_settings [simp]: "same_settings s (at_question s D f)"
  by (simp add: same_settings_def at_question_def)

lemma after_creation_fields [simp]:
  "files (after_creation s3 D f content) = (files s3)(destination_path D f \<mapsto> rewritten s3 content)"
  "mAlwaysOverwriteFiles (after_creation s3 D f content) = mAlwaysOverwriteFiles s3"
  "pending (mCons (after_creation s3 D f content)) = pending (mCons s3)"
  "questions (after_creation s3 D f content) = questions s3"
  by (simp_all add: after_creation_def Let_def questions_def verbose_write_def cons_write_def)

lemma after_creation_settings [simp]: "same_settings s3 (after_creation s3 D f content)"
  by (simp add: after_creation_def Let_def same_settings_def verbose_write_def cons_write_def)

lemma after_creation_empty:
  "\<exists>ws. written (mCons (after_creation s3 D f [])) = ws @ [SourceEmpty f]"
  by (simp add: after_creation_def Let_def)

lemma create_file_Inr:
  assumes "create_file s D f = Inr (b, s')"
  obtains content s3 where
    "files s (source_path D f) = Some content"
    "\<not> access_denied s (source_path D f)"
    "confirm_overwrite (at_question s D f) (destination_path D f) = Inr (b, s3)"
    "b \<Longrightarrow> destination_path D f \<noteq> source_path D f \<and> \<not> access_denied s (destination_path D f) \<and>
          s' = after_creation s3 D f content"
    "\<not> b \<Longrightarrow> s' = s3"
proof -
  from assms obtain content where c: "fopen_existing s (source_path D f) = Inr content"
    by (cases "fopen_existing s (source_path D f)") (auto simp: create_file_unfold)
  with assms obtain go_on s3 where
    q: "confirm_overwrite (at_question s D f) (destination_path D f) = Inr (go_on, s3)"
    by (cases "confirm_overwrite (at_question s D f) (destination_path D f)")
       (auto simp: create_file_unfold)
  from confirm_overwrite_fields(2) [OF q] have "access_denied s3 = access_denied s"
    by (simp add: same_settings_def)
  with assms c q have
    "go_on = b" "b \<Longrightarrow> destination_path D f \<noteq> source_path D f \<and>
       \<not> access_denied s (destination_path D f) \<and> s' = after_creation s3 D f content"
    "\<not> b \<Longrightarrow> s' = s3"
    by (auto simp: create_file_unfold split: if_splits)
  with c q that show thesis
    by (simp add: fopen_existing_Inr)
qed

lemma create_file_fields:
  assumes "create_file s D f = Inr (b, s')"
  shows "same_settings s s'"
    and "mAlwaysOverwriteFiles s' =
         (mAlwaysOverwriteFiles s \<or> fexists s (destination_path D f) \<and> answer s = Some True)"
    and "\<not> b \<longleftrightarrow> \<not> mAlwaysOverwriteFiles s \<and> fexists s (destination_path D f) \<and> answer s = Some False"
    and "\<not> b \<Longrightarrow> files s' = files s"
    and "b \<Longrightarrow> files s (source_path D f) = Some content \<Longrightarrow>
         files s' = (files s)(destination_path D f \<mapsto> rewritten s content)"
    and "mAlwaysOverwriteFiles s \<Longrightarrow> pending (mCons s') = pending (mCons s) \<and> questions s' = questions s"
proof -
  from assms obtain c s3 where
    c: "files s (source_path D f) = Some c"
    and q: "confirm_overwrite (at_question s D f) (destination_path D f) = Inr (b, s3)"
    and t: "b \<Longrightarrow> s' = after_creation s3 D f c"
    and n: "\<not> b \<Longrightarrow> s' = s3"
    by (rule create_file_Inr) blast
  note qf = confirm_overwrite_fields [OF q]
  from same_settings_trans [OF at_question_settings qf(2)] have s3: "same_settings s s3" .
  show "same_settings s s'"
  proof (cases b)
    case True
    from same_settings_trans [OF s3 after_creation_settings] t [OF True] show ?thesis by simp
  next
    case False
    with n s3 show ?thesis by simp
  qed
  show "mAlwaysOverwriteFiles s' =
         (mAlwaysOverwriteFiles s \<or> fexists s (destination_path D f) \<and> answer s = Some True)"
    using qf(3) t n by (cases b) simp_all
  show "\<not> b \<longleftrightarrow> \<not> mAlwaysOverwriteFiles s \<and> fexists s (destination_path D f) \<and> answer s = Some False"
    using qf(4) by simp
  show "\<not> b \<Longrightarrow> files s' = files s"
    using qf(1) n by simp
  show "b \<Longrightarrow> files s (source_path D f) = Some content \<Longrightarrow>
         files s' = (files s)(destination_path D f \<mapsto> rewritten s content)"
    using qf(1) t c rewritten_same_settings [OF s3] by simp
  show "mAlwaysOverwriteFiles s \<Longrightarrow> pending (mCons s') = pending (mCons s) \<and> questions s' = questions s"
  proof -
    assume a: "mAlwaysOverwriteFiles s"
    then have "confirm_overwrite (at_question s D f) (destination_path D f) = Inr (True, at_question s D f)"
      by (simp add: confirm_overwrite_always)
    with q have "b" "s3 = at_question s D f" by simp_all
    with t show ?thesis by simp
  qed
qed

lemma create_file_returns:
  assumes "files s (source_path D f) = Some content"
    and "\<not> access_denied s (source_path D f)"
    and "destination_path D f \<noteq> source_path D f"
    and "\<not> access_denied s (destination_path D f)"
    and "mAlwaysOverwriteFiles s \<or> \<not> fexists s (destination_path D f) \<or> answer s = Some True"
  shows "\<exists>s'. create_file s D f = Inr (True, s')"
proof -
  have o: "fopen_existing s (source_path D f) = Inr content"
    using assms(1,2) by (simp add: fopen_existing_Inr)
  have "\<exists>s3. confirm_overwrite (at_question s D f) (destination_path D f) = Inr (True, s3)
             \<and> same_settings (at_question s D f) s3"
  proof (cases "mAlwaysOverwriteFiles s \<or> \<not> fexists s (destination_path D f)")
    case True
    then show ?thesis
      by (auto simp: confirm_overwrite_always confirm_overwrite_absent)
  next
    case False
    with assms(5) have "answer (at_question s D f) = Some True" by simp
    from confirm_overwrite_asked [OF _ _ this, of "destination_path D f"] False
    show ?thesis by auto
  qed
  then obtain s3 where q: "confirm_overwrite (at_question s D f) (destination_path D f) = Inr (True, s3)"
    and ss: "same_settings (at_question s D f) s3" by blast
  from ss have "access_denied s3 = access_denied s" by (simp add: same_settings_def)
  with o q assms(3,4) show ?thesis
    by (simp add: create_file_unfold)
qed

lemma create_file_declines:
  assumes "files s (source_path D f) = Some content"
    and "\<not> access_denied s (source_path D f)"
    and "\<not> mAlwaysOverwriteFiles s"
    and "fexists s (destination_path D f)"
    and "answer s = Some False"
  shows "\<exists>s'. create_file s D f = Inr (False, s')"
proof -
  have o: "fopen_existing s (source_path D f) = Inr content"
    using assms(1,2) by (simp add: fopen_existing_Inr)
  from assms(5) have "answer (at_question s D f) = Some False" by simp
  from confirm_overwrite_asked [OF _ _ this, of "destination_path D f"] assms(3,4)
  obtain s3 where "confirm_overwrite (at_question s D f) (destination_path D f) = Inr (False, s3)"
    by auto
  with o show ?thesis by (simp add: create_file_unfold)
qed

subsection \<open>The segments of the notice\<close>

lemma find_crlf_from_shift:
  "find_crlf_from cs i = None \<Longrightarrow> find_crlf_from cs j = None"
proof (induction cs i arbitrary: j rule: find_crlf_from.induct)
  case (1 c d cs i)
  from 1(2) have n: "\<not> (c = CR \<and> d = LF)" and f: "find_crlf_from (d # cs) (Suc i) = None"
    by (auto split: if_splits)
  from 1(1) [OF n f, of "Suc j"] n show ?case by simp
qed simp_all

lemma crlf_free_Cons:
  "crlf_free (c # d # cs) \<Longrightarrow> \<not> (c = CR \<and> d = LF) \<and> crlf_free (d # cs)"
proof -
  assume a: "crlf_free (c # d # cs)"
  then have n: "\<not> (c = CR \<and> d = LF)" and f: "find_crlf_from (d # cs) (Suc 0) = None"
    by (auto simp: crlf_free_def find_crlf_def split: if_splits)
  from find_crlf_from_shift [OF f, of 0] n show ?thesis
    by (simp add: crlf_free_def find_crlf_def)
qed

lemma crlf_segments_free: "crlf_free segment \<Longrightarrow> crlf_segments segment = [segment]"
  by (rule crlf_segments_none [of segment 0]) (simp add: crlf_free_def find_crlf_def)

lemma crlf_segments_first:
  "crlf_free segment \<Longrightarrow>
   crlf_segments (segment @ newline @ rest) = segment # crlf_segments rest"
proof (induction segment rule: crlf_segments.induct)
  case 1
  show ?case by (simp add: newline_def)
next
  case (2 c)
  show ?case by (simp add: newline_def)
next
  case (3 c d cs)
  from crlf_free_Cons [OF 3(3)] have n: "\<not> (c = CR \<and> d = LF)" and f: "crlf_free (d # cs)"
    by simp_all
  from 3(2) [OF n f] n show ?case by simp
qed

lemma crlf_segments_join:
  "segments \<noteq> [] \<Longrightarrow> \<forall>segment\<in>set segments. crlf_free segment \<Longrightarrow>
   crlf_segments (join_crlf segments) = segments"
proof (induction segments rule: join_crlf.induct)
  case 1
  then show ?case by simp
next
  case (2 segment)
  then show ?case by (simp add: crlf_segments_free)
next
  case (3 segment next_segment segments)
  then show ?case by (simp add: crlf_segments_first)
qed

lemma join_crlf_segments: "join_crlf (crlf_segments notice) = notice"
proof (induction notice rule: crlf_segments.induct)
  case 1
  show ?case by simp
next
  case (2 c)
  show ?case by simp
next
  case (3 c d cs)
  show ?case
  proof (cases "c = CR \<and> d = LF")
    case True
    obtain x xs where x: "crlf_segments cs = x # xs"
      using crlf_segments_nonempty [of cs] by (cases "crlf_segments cs") auto
    with 3(1) [OF True] True show ?thesis by (simp add: newline_def)
  next
    case False
    obtain x xs where x: "crlf_segments (d # cs) = x # xs"
      using crlf_segments_nonempty [of "d # cs"] by (cases "crlf_segments (d # cs)") auto
    have "join_crlf ((c # x) # xs) = c # join_crlf (x # xs)"
      by (cases xs) simp_all
    with 3(2) [OF False] False x show ?thesis by auto
  qed
qed

subsection \<open>The destination file\<close>

lemma join_crlf_trailing:
  "segments \<noteq> [] \<Longrightarrow> join_crlf (segments @ [[]]) = join_crlf segments @ newline"
  by (induction segments rule: join_crlf.induct) simp_all

lemma create_file_destination:
  assumes "create_file s Directories Fname = Inr (True, s')"
    and "files s (source_path Directories Fname) = Some content"
  shows "files s' (destination_path Directories Fname) = Some (rewritten s content)"
  using create_file_fields(5) [OF assms(1) _ assms(2)] by simp

lemma example_world_fields [simp]:
  "files (example_world notice typed disk) = disk"
  "access_denied (example_world notice typed disk) path = False"
  "mNotice (example_world notice typed disk) = notice"
  "mCommentPrefix (example_world notice typed disk) = ''// ''"
  "mReplace (example_world notice typed disk) = False"
  "mAlwaysOverwriteFiles (example_world notice typed disk) = False"
  "pending (mCons (example_world notice typed disk)) = typed"
  by (simp_all add: example_world_def new_instance_def)

lemma destination_after_written:
  assumes "files s (source_path D f) = Some content"
    and "\<not> access_denied s (source_path D f)"
    and "destination_path D f \<noteq> source_path D f"
    and "\<not> access_denied s (destination_path D f)"
    and "mAlwaysOverwriteFiles s \<or> \<not> fexists s (destination_path D f) \<or> answer s = Some True"
  shows "destination_after s D f = Some (rewritten s content)"
proof -
  from create_file_returns [OF assms] obtain s' where r: "create_file s D f = Inr (True, s')" ..
  from create_file_destination [OF r assms(1)] r show ?thesis
    by (simp add: destination_after_def)
qed

lemma skip_comments_strip:
  "strip_leading_comments p content = line @ newline @ rest \<Longrightarrow> LF \<notin> set line \<Longrightarrow>
   skip_comments p content = (line, rest)"
proof (induction p content rule: strip_leading_comments.induct)
  case (1 p content)
  obtain ok l r where f: "freadline content = (ok, l, r)"
    by (cases "freadline content") auto
  show ?case
  proof (cases "ok \<and> starts_with l p")
    case True
    with f 1(2) have "strip_leading_comments p r = line @ newline @ rest"
      by (subst (asm) strip_leading_comments.simps) simp
    from 1(1) [OF f [symmetric] refl refl True this 1(3)] f True show ?thesis
      by (subst skip_comments.simps) simp
  next
    case False
    with f 1(2) have c: "content = line @ newline @ rest"
      by (subst (asm) strip_leading_comments.simps) auto
    from freadline_crlf [OF 1(3), of rest] c f have "ok" "l = line" "r = rest" by simp_all
    with False f show ?thesis
      by (subst skip_comments.simps) simp
  qed
qed

lemma rewritten_plain:
  assumes "content = line @ newline @ rest" and "LF \<notin> set line"
    and "\<not> (starts_with line (mCommentPrefix s) \<and> mReplace s)"
  shows "rewritten s content =
         notice_block (mCommentPrefix s) (mNotice s)
         @ take (uint32_t (length line)) line @ newline @ rest"
  using assms(3) unfolding rewritten_def first_code_line_def assms(1) freadline_crlf [OF assms(2)]
  by auto

lemma rewritten_replace:
  assumes "freadline content = (True, first, after)" and "starts_with first (mCommentPrefix s)"
    and "mReplace s"
    and "strip_leading_comments (mCommentPrefix s) content = line @ newline @ rest"
    and "LF \<notin> set line"
  shows "rewritten s content =
         notice_block (mCommentPrefix s) (mNotice s)
         @ take (uint32_t (length line)) line @ newline @ rest"
proof -
  from assms(1,2) have "strip_leading_comments (mCommentPrefix s) content =
      strip_leading_comments (mCommentPrefix s) after"
    by (subst strip_leading_comments.simps) simp
  with assms(4) have "strip_leading_comments (mCommentPrefix s) after = line @ newline @ rest" by simp
  from skip_comments_strip [OF this assms(5)] assms
  show ?thesis by (simp add: rewritten_def first_code_line_def)
qed

lemma example_paths [simp]:
  "destination_path example_directories Fname \<noteq> source_path example_directories Fname"
  by (simp add: example_directories_def source_path_def destination_path_def)

lemma example_absent [simp]:
  "\<not> fexists (example_world notice typed [source_path example_directories Fname \<mapsto> content])
       (destination_path example_directories Fname)"
  by (simp add: fexists_def)

subsection \<open>The overwrite policy over a run\<close>

lemma unasked_trans: "unasked s t \<Longrightarrow> unasked t u \<Longrightarrow> unasked s u"
  by (simp add: unasked_def)

lemma unasked_refl: "mAlwaysOverwriteFiles s \<Longrightarrow> unasked s s"
  by (simp add: unasked_def)

lemma unasked_always: "unasked s t \<Longrightarrow> mAlwaysOverwriteFiles t"
  by (simp add: unasked_def)

lemma unasked_writes:
  "mAlwaysOverwriteFiles s \<Longrightarrow> m \<noteq> OverwriteQuestion \<Longrightarrow> unasked s (cons_write m s)"
  "mAlwaysOverwriteFiles s \<Longrightarrow> m \<noteq> OverwriteQuestion \<Longrightarrow> unasked s (verbose_write m s)"
  by (simp_all add: unasked_def)

lemma create_file_unasked:
  assumes "mAlwaysOverwriteFiles s" and "create_file s D f = Inr (created, s')"
  shows "created \<and> unasked s s'"
  using create_file_fields(2,3,6) [OF assms(2)] assms(1)
  by (auto simp: unasked_def)

lemma iterate_loop_unasked:
  "mAlwaysOverwriteFiles s \<Longrightarrow> iterate_loop s D entries n = Inr (n', s') \<Longrightarrow> unasked s s'"
proof (induction entries arbitrary: s n)
  case Nil
  then show ?case by (simp add: unasked_refl)
next
  case (Cons findData entries)
  show ?case
  proof (cases "attr_hidden findData \<or> attr_directory findData")
    case True
    with Cons.prems(2) have "iterate_loop s D entries n = Inr (n', s')"
      by (auto split: if_splits)
    from Cons.IH [OF Cons.prems(1) this] show ?thesis .
  next
    case False
    with Cons.prems(2) obtain created s1 where c: "create_file s D (cFileName findData) = Inr (created, s1)"
      and r: "iterate_loop s1 D entries (if created then n + 1 else n) = Inr (n', s')"
      by (auto split: sum.splits)
    from create_file_unasked [OF Cons.prems(1) c] have u: "unasked s s1" by simp
    from Cons.IH [OF unasked_always [OF u] r] have "unasked s1 s'" .
    with u show ?thesis by (rule unasked_trans)
  qed
qed

lemma iterate_unasked:
  assumes "mAlwaysOverwriteFiles s" and "iterate s D Extension = Inr (n, s')"
  shows "unasked s s'"
proof -
  let ?t = "src D @ (if src D \<noteq> [] then [backslash] else []) @ ''*.'' @ Extension"
  let ?s1 = "verbose_write (ExecutingForTarget ?t) s"
  have u1: "unasked s ?s1" using assms(1) by (simp add: unasked_writes)
  show ?thesis
  proof (cases "found ?s1 ?t")
    case (Inl error)
    with assms(2) have "s' = cons_write (CouldNotFindTarget ?t) ?s1"
      by (auto simp: iterate_def Let_def split: if_splits)
    with unasked_writes(1) [OF unasked_always [OF u1], of "CouldNotFindTarget ?t"] u1
    show ?thesis by (auto intro: unasked_trans)
  next
    case (Inr r)
    obtain findData entries errorCode where r: "r = (findData, entries, errorCode)"
      by (cases r) auto
    with Inr assms(2) obtain m s2 where l: "iterate_loop ?s1 D (findData # entries) 0 = Inr (m, s2)"
      and e: "s' = cons_write (FinishedTarget ?t m) s2"
      by (auto simp: iterate_def Let_def split: sum.splits if_splits)
    from iterate_loop_unasked [OF unasked_always [OF u1] l] have u2: "unasked ?s1 s2" .
    from unasked_writes(1) [OF unasked_always [OF u2], of "FinishedTarget ?t m"] e
    have "unasked s2 s'" by simp
    with u1 u2 show ?thesis by (blast intro: unasked_trans)
  qed
qed

lemma execute_extensions_unasked:
  "mAlwaysOverwriteFiles s \<Longrightarrow> execute_extensions s D extensions n = Inr (n', s') \<Longrightarrow> unasked s s'"
proof (induction extensions arbitrary: s n)
  case Nil
  then show ?case by (simp add: unasked_refl)
next
  case (Cons extension extensions)
  from Cons.prems(2) obtain m s1 where i: "iterate s D extension = Inr (m, s1)"
    and r: "execute_extensions s1 D extensions (n + m) = Inr (n', s')"
    by (auto split: sum.splits)
  from iterate_unasked [OF Cons.prems(1) i] have u: "unasked s s1" .
  from Cons.IH [OF unasked_always [OF u] r] u show ?case by (blast intro: unasked_trans)
qed

lemma execute_directories_unasked:
  "mAlwaysOverwriteFiles s \<Longrightarrow> execute_directories s directories n = Inr (n', s') \<Longrightarrow> unasked s s'"
proof (induction directories arbitrary: s n)
  case Nil
  then show ?case by (simp add: unasked_refl)
next
  case (Cons D directories)
  from Cons.prems(2) obtain m s1 where i: "execute_extensions s D (mExtensions s) n = Inr (m, s1)"
    and r: "execute_directories s1 directories m = Inr (n', s')"
    by (auto split: sum.splits)
  from execute_extensions_unasked [OF Cons.prems(1) i] have u: "unasked s s1" .
  from Cons.IH [OF unasked_always [OF u] r] u show ?case by (blast intro: unasked_trans)
qed

lemma execute_unasked:
  assumes "mAlwaysOverwriteFiles s" and "execute s = Inr s'"
  shows "unasked s s'"
proof -
  from assms(2) obtain n s1 where d: "execute_directories s (mDirectories s) 0 = Inr (n, s1)"
    and e: "s' = cons_write (DoneCreated n) s1"
    by (auto simp: execute_def split: sum.splits)
  from execute_directories_unasked [OF assms(1) d] have u: "unasked s s1" .
  from unasked_writes(1) [OF unasked_always [OF u], of "DoneCreated n"] e u
  show ?thesis by (auto intro: unasked_trans)
qed

subsection \<open>The expansion of the directories\<close>

lemma console_only_refl [simp]: "console_only s s"
  by (simp add: console_only_def)

lemma console_only_trans: "console_only s t \<Longrightarrow> console_only t u \<Longrightarrow> console_only s u"
  by (auto simp: console_only_def intro: same_settings_trans)

lemma console_only_cons_write [simp]: "console_only s (cons_write m s)"
  by (simp add: console_only_def)

lemma target_directories_loop_skip:
  "\<not> eligible findData \<Longrightarrow>
   target_directories_loop fuel s D (findData # entries) errorCode New =
   target_directories_loop fuel s D entries errorCode New"
  by (auto simp: eligible_def)

lemma target_directories_loop_filter:
  "target_directories_loop fuel s D entries errorCode New =
   target_directories_loop fuel s D (filter eligible entries) errorCode New"
proof (induction entries arbitrary: s New)
  case Nil
  show ?case by simp
next
  case (Cons findData entries)
  show ?case
  proof (cases "eligible findData")
    case False
    have "target_directories_loop fuel s D (findData # entries) errorCode New =
          target_directories_loop fuel s D entries errorCode New"
      by (rule target_directories_loop_skip [OF False])
    also have "\<dots> = target_directories_loop fuel s D (filter eligible entries) errorCode New"
      by (rule Cons.IH)
    finally show ?thesis using False by simp
  next
    case True
    then have e: "attr_directory findData" "\<not> attr_hidden findData" "\<not> is_dot_entry (cFileName findData)"
      by (simp_all add: eligible_def)
    let ?n = "new_directory D (cFileName findData)"
    have u: "target_directories_loop fuel s D (findData # rest) errorCode New =
        (case target_directories fuel s ?n (New @ [?n]) of
           None \<Rightarrow> None
         | Some (Inl e) \<Rightarrow> Some (Inl e)
         | Some (Inr (New', s')) \<Rightarrow> target_directories_loop fuel s' D rest errorCode New')" for rest
      using e by (simp add: Let_def)
    have "target_directories_loop fuel s D (findData # entries) errorCode New =
          target_directories_loop fuel s D (findData # filter eligible entries) errorCode New"
      unfolding u
      by (auto split: option.splits sum.splits intro: Cons.IH)
    with True show ?thesis by simp
  qed
qed

lemma target_directories_no_recurse:
  "\<not> mRecurse s \<Longrightarrow>
   target_directories (Suc fuel) s D New =
   Some (Inr (New, cons_write (TargetDirectory (src D) (dst D)) s))"
  by (simp add: Let_def)

lemma target_directories_leaf:
  assumes "mRecurse s"
    and "found s (search_string D) = Inr (findData, entries, ERROR_NO_MORE_FILES)"
    and "filter eligible (findData # entries) = []"
  shows "target_directories (Suc fuel) s D New =
         Some (Inr (New, cons_write (TargetDirectory (src D) (dst D)) s))"
proof -
  let ?s1 = "cons_write (TargetDirectory (src D) (dst D)) s"
  have "target_directories (Suc fuel) s D New =
        target_directories_loop fuel ?s1 D (findData # entries) ERROR_NO_MORE_FILES New"
    using assms(1,2) by (simp add: Let_def)
  also have "\<dots> = target_directories_loop fuel ?s1 D (filter eligible (findData # entries)) ERROR_NO_MORE_FILES New"
    by (rule target_directories_loop_filter)
  also have "\<dots> = Some (Inr (New, ?s1))"
    unfolding assms(3) by simp
  finally show ?thesis .
qed

lemma console_only_fields:
  assumes "console_only s s'"
  shows "mRecurse s' = mRecurse s" "found s' = found s" "mDirectories s' = mDirectories s"
    "subdirectories s' D = subdirectories s D"
  using assms by (simp_all add: console_only_def same_settings_def subdirectories_def)

lemma subdirectoriesE:
  assumes "subdirectories s D = Some names"
  obtains findData entries where
    "found s (search_string D) = Inr (findData, entries, ERROR_NO_MORE_FILES)"
    "map cFileName (filter eligible (findData # entries)) = names"
  using assms by (auto simp: subdirectories_def split: sum.splits if_splits)

lemma target_directories_leaf':
  assumes "mRecurse s" and "subdirectories s D = Some []"
  shows "target_directories (Suc fuel) s D New =
         Some (Inr (New, cons_write (TargetDirectory (src D) (dst D)) s))"
proof -
  from assms(2) obtain findData entries where
    f: "found s (search_string D) = Inr (findData, entries, ERROR_NO_MORE_FILES)"
    and "map cFileName (filter eligible (findData # entries)) = []"
    by (rule subdirectoriesE)
  then have "filter eligible (findData # entries) = []" by simp
  from target_directories_leaf [OF assms(1) f this] show ?thesis .
qed

lemma target_directories_loop_leaves:
  assumes "mRecurse s"
    and "\<forall>findData\<in>set entries. eligible findData \<and>
           subdirectories s (new_directory D (cFileName findData)) = Some []"
  shows "\<exists>s'. target_directories_loop (Suc fuel) s D entries ERROR_NO_MORE_FILES New =
               Some (Inr (New @ map (\<lambda>findData. new_directory D (cFileName findData)) entries, s'))
             \<and> console_only s s'"
  using assms
proof (induction entries arbitrary: s New)
  case Nil
  then show ?case by simp
next
  case (Cons findData entries)
  let ?n = "new_directory D (cFileName findData)"
  let ?s1 = "cons_write (TargetDirectory (src ?n) (dst ?n)) s"
  from Cons.prems(2) have e: "attr_directory findData" "\<not> attr_hidden findData"
      "\<not> is_dot_entry (cFileName findData)"
    and l: "subdirectories s ?n = Some []"
    by (simp_all add: eligible_def)
  from target_directories_leaf' [OF Cons.prems(1) l]
  have t: "target_directories (Suc fuel) s ?n (New @ [?n]) = Some (Inr (New @ [?n], ?s1))" .
  have c1: "console_only s ?s1" by simp
  from Cons.prems console_only_fields [OF c1]
  have "mRecurse ?s1" and "\<forall>findData\<in>set entries. eligible findData \<and>
           subdirectories ?s1 (new_directory D (cFileName findData)) = Some []"
    by simp_all
  from Cons.IH [OF this, of "New @ [?n]"] obtain s' where
    r: "target_directories_loop (Suc fuel) ?s1 D entries ERROR_NO_MORE_FILES (New @ [?n]) =
        Some (Inr ((New @ [?n]) @ map (\<lambda>findData. new_directory D (cFileName findData)) entries, s'))"
    and c2: "console_only ?s1 s'" by blast
  have "target_directories_loop (Suc fuel) s D (findData # entries) ERROR_NO_MORE_FILES New =
        target_directories_loop (Suc fuel) ?s1 D entries ERROR_NO_MORE_FILES (New @ [?n])"
    using e by (simp add: Let_def t del: target_directories.simps)
  with r console_only_trans [OF c1 c2] show ?case by simp
qed

lemma target_directories_one_level:
  assumes "mRecurse s"
    and "subdirectories s D = Some names"
    and "\<forall>name\<in>set names. subdirectories s (new_directory D name) = Some []"
  shows "\<exists>s'. target_directories (Suc (Suc fuel)) s D New =
               Some (Inr (New @ map (new_directory D) names, s'))
             \<and> console_only s s'"
proof -
  let ?s1 = "cons_write (TargetDirectory (src D) (dst D)) s"
  from assms(2) obtain findData entries where
    f: "found s (search_string D) = Inr (findData, entries, ERROR_NO_MORE_FILES)"
    and n: "map cFileName (filter eligible (findData # entries)) = names"
    by (rule subdirectoriesE)
  have c1: "console_only s ?s1" by simp
  let ?es = "filter eligible (findData # entries)"
  from assms(1,3) n console_only_fields [OF c1]
  have "mRecurse ?s1" and "\<forall>findData\<in>set ?es. eligible findData \<and>
           subdirectories ?s1 (new_directory D (cFileName findData)) = Some []"
    by auto
  from target_directories_loop_leaves [OF this, of fuel New] obtain s' where
    r: "target_directories_loop (Suc fuel) ?s1 D ?es ERROR_NO_MORE_FILES New =
        Some (Inr (New @ map (\<lambda>findData. new_directory D (cFileName findData)) ?es, s'))"
    and c2: "console_only ?s1 s'" by blast
  have m: "map (\<lambda>findData. new_directory D (cFileName findData)) ?es = map (new_directory D) names"
    unfolding n [symmetric] by (simp add: comp_def)
  have "target_directories (Suc (Suc fuel)) s D New =
        target_directories_loop (Suc fuel) ?s1 D (findData # entries) ERROR_NO_MORE_FILES New"
    using assms(1) f by (simp add: Let_def del: target_directories_loop.simps)
  also have "\<dots> = target_directories_loop (Suc fuel) ?s1 D ?es ERROR_NO_MORE_FILES New"
    by (rule target_directories_loop_filter)
  finally show ?thesis using r m console_only_trans [OF c1 c2] by simp
qed

lemma target_directories_console_only:
  "target_directories fuel s D New = Some (Inr (New', s')) \<Longrightarrow> console_only s s'"
  "target_directories_loop fuel s D entries errorCode New = Some (Inr (New', s')) \<Longrightarrow> console_only s s'"
proof (induction fuel s D New and fuel s D entries errorCode New
       arbitrary: New' s' and New' s' rule: target_directories_target_directories_loop.induct)
  case (1 s Directories NewDirectories)
  then show ?case by simp
next
  case (2 fuel s Directories NewDirectories)
  let ?s1 = "cons_write (TargetDirectory (src Directories) (dst Directories)) s"
  show ?case
  proof (cases "mRecurse s")
    case False
    with 2(2) show ?thesis by (auto simp: Let_def)
  next
    case True
    with 2(2) obtain findData entries errorCode where
      f: "found ?s1 (search_string Directories) = Inr (findData, entries, errorCode)"
      and l: "target_directories_loop fuel ?s1 Directories (findData # entries) errorCode NewDirectories
              = Some (Inr (New', s'))"
      by (auto simp: Let_def split: sum.splits simp del: target_directories_loop.simps)
    from True have "\<not> \<not> mRecurse ?s1" by simp
    from 2(1) [OF refl this refl f refl refl l] have "console_only ?s1 s'" .
    with console_only_cons_write [of s] show ?thesis by (blast intro: console_only_trans)
  qed
next
  case (3 fuel s Directories errorCode NewDirectories)
  then show ?case by (auto split: if_splits)
next
  case (4 fuel s Directories findData entries errorCode NewDirectories)
  show ?case
  proof (cases "eligible findData")
    case False
    from "4.prems" target_directories_loop_skip [OF False, of fuel s Directories entries errorCode NewDirectories]
    have l: "target_directories_loop fuel s Directories entries errorCode NewDirectories
        = Some (Inr (New', s'))"
      by (simp del: target_directories_loop.simps)
    from False consider "\<not> attr_directory findData"
      | "\<not> \<not> attr_directory findData" "attr_hidden findData"
      | "\<not> \<not> attr_directory findData" "\<not> attr_hidden findData" "is_dot_entry (cFileName findData)"
      by (auto simp: eligible_def)
    then show ?thesis
    proof cases
      case 1
      from "4.IH"(1) [OF 1 l] show ?thesis .
    next
      case 2
      from "4.IH"(2) [OF 2 l] show ?thesis .
    next
      case 3
      from "4.IH"(3) [OF 3 l] show ?thesis .
    qed
  next
    case True
    then have e: "\<not> \<not> attr_directory findData" "\<not> attr_hidden findData"
        "\<not> is_dot_entry (cFileName findData)"
      by (simp_all add: eligible_def)
    let ?n = "new_directory Directories (cFileName findData)"
    from "4.prems" e obtain N1 s1 where
      t: "target_directories fuel s ?n (NewDirectories @ [?n]) = Some (Inr (N1, s1))"
      and l: "target_directories_loop fuel s1 Directories entries errorCode N1 = Some (Inr (New', s'))"
      by (auto simp: Let_def split: option.splits sum.splits)
    from "4.IH"(4) [OF e refl t] have c1: "console_only s s1" .
    from "4.IH"(5) [OF e refl t refl refl l] have "console_only s1 s'" .
    with c1 show ?thesis by (rule console_only_trans)
  qed
qed

lemma init_target_loop_console_only:
  "init_target_loop fuel s directories New = Some (Inr (New', s')) \<Longrightarrow> console_only s s'"
proof (induction directories arbitrary: s New)
  case Nil
  then show ?case by simp
next
  case (Cons D directories)
  from Cons.prems obtain N1 s1 where t: "target_directories fuel s D New = Some (Inr (N1, s1))"
    and l: "init_target_loop fuel s1 directories N1 = Some (Inr (New', s'))"
    by (auto split: option.splits sum.splits)
  from target_directories_console_only(1) [OF t] Cons.IH [OF l]
  show ?case by (rule console_only_trans)
qed

lemma init_target_loop_no_recurse:
  "\<not> mRecurse s \<Longrightarrow>
   \<exists>s'. init_target_loop (Suc fuel) s directories New = Some (Inr (New, s')) \<and> console_only s s'"
proof (induction directories arbitrary: s)
  case Nil
  then show ?case by simp
next
  case (Cons D directories)
  let ?s1 = "cons_write (TargetDirectory (src D) (dst D)) s"
  from Cons.prems have t: "target_directories (Suc fuel) s D New = Some (Inr (New, ?s1))"
    by (rule target_directories_no_recurse)
  from Cons.prems have "\<not> mRecurse ?s1" by simp
  from Cons.IH [OF this] obtain s' where
    l: "init_target_loop (Suc fuel) ?s1 directories New = Some (Inr (New, s'))"
    and c: "console_only ?s1 s'" by blast
  from t l have "init_target_loop (Suc fuel) s (D # directories) New = Some (Inr (New, s'))"
    by (simp del: target_directories.simps)
  with console_only_trans [OF console_only_cons_write c] show ?case by blast
qed

lemma init_already_targeted_console_only:
  "init_already_targeted s directories n b = (b', s') \<Longrightarrow> console_only s s'"
proof (induction directories arbitrary: s b)
  case Nil
  then show ?case by simp
next
  case (Cons D directories)
  show ?case
  proof (cases "src D = src n")
    case True
    with Cons.prems have "init_already_targeted (cons_write (AlreadyTargeted (src n)) s) directories n True = (b', s')"
      by simp
    from Cons.IH [OF this] console_only_cons_write [of s "AlreadyTargeted (src n)"]
    show ?thesis by (blast intro: console_only_trans)
  next
    case False
    with Cons.prems have "init_already_targeted s directories n b = (b', s')" by simp
    from Cons.IH [OF this] show ?thesis .
  qed
qed

lemma init_already_targeted_fresh:
  "\<forall>D\<in>set directories. src D \<noteq> src n \<Longrightarrow> init_already_targeted s directories n b = (b, s)"
  by (induction directories) simp_all

lemma init_add_loop_flag:
  "mAlwaysOverwriteFiles (init_add_loop s New) = mAlwaysOverwriteFiles s"
proof (induction New arbitrary: s)
  case Nil
  show ?case by simp
next
  case (Cons n New)
  obtain b s1 where a: "init_already_targeted s (mDirectories s) n False = (b, s1)"
    by (cases "init_already_targeted s (mDirectories s) n False") auto
  from init_already_targeted_console_only [OF a]
  have "mAlwaysOverwriteFiles s1 = mAlwaysOverwriteFiles s" by (simp add: console_only_def)
  with a show ?case by (simp add: Cons.IH)
qed

lemma init_add_loop_fresh:
  "distinct (map src New) \<Longrightarrow> \<forall>n\<in>set New. \<forall>D\<in>set (mDirectories s). src D \<noteq> src n \<Longrightarrow>
   mDirectories (init_add_loop s New) = mDirectories s @ New"
proof (induction New arbitrary: s)
  case Nil
  show ?case by simp
next
  case (Cons n New)
  from Cons.prems(2) have "\<forall>D\<in>set (mDirectories s). src D \<noteq> src n" by simp
  from init_already_targeted_fresh [OF this]
  have a: "init_already_targeted s (mDirectories s) n False = (False, s)" .
  let ?s1 = "s\<lparr>mDirectories := mDirectories s @ [n]\<rparr>"
  from Cons.prems have "distinct (map src New)"
    and "\<forall>m\<in>set New. \<forall>D\<in>set (mDirectories ?s1). src D \<noteq> src m"
    by auto
  from Cons.IH [OF this] a show ?case by simp
qed

lemma init_directories_flag:
  assumes "init_directories fuel s = Some (Inr s')"
  shows "mAlwaysOverwriteFiles s' = mAlwaysOverwriteFiles s"
proof -
  from assms obtain New s1 where l: "init_target_loop fuel s (mDirectories s) [] = Some (Inr (New, s1))"
    and e: "s' = init_add_loop s1 New"
    by (auto simp: init_directories_def split: option.splits sum.splits)
  from init_target_loop_console_only [OF l] e show ?thesis
    by (simp add: init_add_loop_flag console_only_def)
qed

lemma new_directory_src_differs:
  "name \<noteq> [] \<Longrightarrow> src (new_directory D name) \<noteq> src D"
  by (simp add: new_directory_def)

lemma new_directory_src_inj:
  "src (new_directory D name) = src (new_directory D name') \<longleftrightarrow> name = name'"
  by (simp add: new_directory_def)

text \<open>More fuel does not change a result that was reached.\<close>

lemma target_directories_more_fuel:
  "target_directories fuel s D New = Some r \<Longrightarrow> target_directories (Suc fuel) s D New = Some r"
  "target_directories_loop fuel s D entries errorCode New = Some r \<Longrightarrow>
   target_directories_loop (Suc fuel) s D entries errorCode New = Some r"
proof (induction fuel s D New and fuel s D entries errorCode New
       arbitrary: r and r rule: target_directories_target_directories_loop.induct)
  case (1 s Directories NewDirectories)
  then show ?case by simp
next
  case (2 fuel s Directories NewDirectories)
  let ?s1 = "cons_write (TargetDirectory (src Directories) (dst Directories)) s"
  show ?case
  proof (cases "mRecurse s")
    case False
    with "2.prems" show ?thesis by (simp add: Let_def)
  next
    case True
    then have m: "\<not> \<not> mRecurse ?s1" by simp
    show ?thesis
    proof (cases "found ?s1 (search_string Directories)")
      case (Inl e)
      with "2.prems" True show ?thesis by (simp add: Let_def)
    next
      case (Inr x)
      obtain findData entries errorCode where x: "x = (findData, entries, errorCode)"
        by (cases x) auto
      from "2.prems" True Inr x
      have l: "target_directories_loop fuel ?s1 Directories (findData # entries) errorCode NewDirectories = Some r"
        by (simp add: Let_def del: target_directories_loop.simps)
      from "2.IH" [OF refl m refl Inr [unfolded x] refl refl l]
      have "target_directories_loop (Suc fuel) ?s1 Directories (findData # entries) errorCode NewDirectories = Some r" .
      with True Inr x show ?thesis
        by (simp add: Let_def del: target_directories_loop.simps)
    qed
  qed
next
  case (3 fuel s Directories errorCode NewDirectories)
  then show ?case by simp
next
  case (4 fuel s Directories findData entries errorCode NewDirectories)
  show ?case
  proof (cases "eligible findData")
    case False
    from "4.prems" target_directories_loop_skip [OF False, of fuel s Directories entries errorCode NewDirectories]
    have l: "target_directories_loop fuel s Directories entries errorCode NewDirectories = Some r"
      by (simp del: target_directories_loop.simps)
    from False consider "\<not> attr_directory findData"
      | "\<not> \<not> attr_directory findData" "attr_hidden findData"
      | "\<not> \<not> attr_directory findData" "\<not> attr_hidden findData" "is_dot_entry (cFileName findData)"
      by (auto simp: eligible_def)
    then have "target_directories_loop (Suc fuel) s Directories entries errorCode NewDirectories = Some r"
    proof cases
      case 1
      from "4.IH"(1) [OF 1 l] show ?thesis .
    next
      case 2
      from "4.IH"(2) [OF 2 l] show ?thesis .
    next
      case 3
      from "4.IH"(3) [OF 3 l] show ?thesis .
    qed
    with target_directories_loop_skip [OF False, of "Suc fuel" s Directories entries errorCode NewDirectories]
    show ?thesis by (simp del: target_directories_loop.simps)
  next
    case True
    then have e: "\<not> \<not> attr_directory findData" "\<not> attr_hidden findData"
        "\<not> is_dot_entry (cFileName findData)"
      by (simp_all add: eligible_def)
    let ?n = "new_directory Directories (cFileName findData)"
    have u: "target_directories_loop k s Directories (findData # entries) errorCode NewDirectories =
        (case target_directories k s ?n (NewDirectories @ [?n]) of
           None \<Rightarrow> None
         | Some (Inl e) \<Rightarrow> Some (Inl e)
         | Some (Inr (New', s')) \<Rightarrow> target_directories_loop k s' Directories entries errorCode New')" for k
      using e by (simp add: Let_def del: target_directories.simps)
    from "4.prems" obtain x where t: "target_directories fuel s ?n (NewDirectories @ [?n]) = Some x"
      unfolding u by (cases "target_directories fuel s ?n (NewDirectories @ [?n])") auto
    from "4.IH"(4) [OF e refl t]
    have t': "target_directories (Suc fuel) s ?n (NewDirectories @ [?n]) = Some x" .
    show ?thesis
    proof (cases x)
      case (Inl err)
      have "target_directories_loop fuel s Directories (findData # entries) errorCode NewDirectories = Some (Inl err)"
        unfolding u t Inl by simp
      with "4.prems" have r: "r = Inl err" by simp
      show ?thesis unfolding u t' Inl r by simp
    next
      case (Inr y)
      obtain N1 s1 where y: "y = (N1, s1)" by (cases y) auto
      have "target_directories_loop fuel s Directories (findData # entries) errorCode NewDirectories =
            target_directories_loop fuel s1 Directories entries errorCode N1"
        unfolding u t Inr y by simp
      with "4.prems" have l: "target_directories_loop fuel s1 Directories entries errorCode N1 = Some r"
        by simp
      from "4.IH"(5) [OF e refl t [unfolded Inr y] refl refl l]
      have "target_directories_loop (Suc fuel) s1 Directories entries errorCode N1 = Some r" .
      then show ?thesis unfolding u t' Inr y by simp
    qed
  qed
qed

section \<open>The claims\<close>

text \<open>
  C1, as the spec states it, fails for a source whose first line has no CR LF after it:
  the source \<open>int x;\<close> does not start with the prefix, and the destination is the
  notice line and \<open>int x;\<close> with a CR LF that the source does not have, with
  \<^verbatim>\<open>mReplace\<close> unset and set. It fails as well for a first line whose length does
  not fit 32 bits: of the source \<open>long_line\<close>, CR LF, \<open>int y;\<close> line 723 writes no
  byte of the first line, and the destination is the notice line, a CR LF and
  \<open>int y;\<close>.
\<close>

theorem destination_is_notice_and_source_counterexample:
  "\<not> starts_with ''int x;'' ''// ''
   \<and> destination_after
        (example_world ''N'' [] [source_path example_directories ''a.c'' \<mapsto> ''int x;''])
        example_directories ''a.c''
       = Some (''// N'' @ newline @ ''int x;'' @ newline)
   \<and> destination_after
        ((example_world ''N'' [] [source_path example_directories ''a.c'' \<mapsto> ''int x;''])
           \<lparr>mReplace := True\<rparr>)
        example_directories ''a.c''
       = Some (''// N'' @ newline @ ''int x;'' @ newline)
   \<and> ''// N'' @ newline @ ''int x;'' @ newline \<noteq> notice_block ''// '' ''N'' @ ''int x;''
   \<and> \<not> starts_with long_line ''// ''
   \<and> destination_after
        (example_world ''N'' []
           [source_path example_directories ''a.c'' \<mapsto> long_line @ newline @ ''int y;''])
        example_directories ''a.c''
       = Some (''// N'' @ newline @ newline @ ''int y;'')
   \<and> ''// N'' @ newline @ newline @ ''int y;''
       \<noteq> notice_block ''// '' ''N'' @ long_line @ newline @ ''int y;''"
proof -
  let ?w = "example_world ''N'' [] [source_path example_directories ''a.c'' \<mapsto> ''int x;'']"
  let ?l = "long_line @ newline @ ''int y;''"
  let ?v = "example_world ''N'' [] [source_path example_directories ''a.c'' \<mapsto> ?l]"
  have r: "rewritten ?w ''int x;'' = ''// N'' @ newline @ ''int x;'' @ newline"
    "rewritten (?w\<lparr>mReplace := True\<rparr>) ''int x;'' = ''// N'' @ newline @ ''int x;'' @ newline"
    by (simp_all add: rewritten_def first_code_line_def freadline_def starts_with_def
          notice_block_def newline_def uint32_t_small)
  have b: "notice_block ''// '' ''N'' = ''// N'' @ newline"
    by (simp add: notice_block_def)
  have "rewritten ?v ?l = notice_block (mCommentPrefix ?v) (mNotice ?v)
          @ take (uint32_t (length long_line)) long_line @ newline @ ''int y;''"
    by (rule rewritten_plain [OF refl long_line_LF]) simp
  then have r': "rewritten ?v ?l = ''// N'' @ newline @ newline @ ''int y;''"
    by (simp add: long_line_written b)
  have "destination_after ?w example_directories ''a.c'' = Some (rewritten ?w ''int x;'')"
    by (rule destination_after_written) simp_all
  moreover have "destination_after (?w\<lparr>mReplace := True\<rparr>) example_directories ''a.c''
      = Some (rewritten (?w\<lparr>mReplace := True\<rparr>) ''int x;'')"
    by (rule destination_after_written) (simp_all add: fexists_def)
  moreover have "destination_after ?v example_directories ''a.c'' = Some (rewritten ?v ?l)"
    by (rule destination_after_written) (simp_all add: fexists_def)
  moreover have "newline @ ''int y;'' \<noteq> long_line @ newline @ ''int y;''"
    by (subst long_line_Cons) (simp add: newline_def)
  ultimately show ?thesis
    using r r' long_line_code by (simp add: starts_with_def b del: append_eq_append_conv append_same_eq same_append_eq) (simp add: newline_def)
qed

text \<open>
  C1, amended. For every source file whose first line does not start with the comment
  prefix, is terminated by CR LF and is shorter than \<open>2^32\<close> bytes, the destination
  file that \<^verbatim>\<open>create_file\<close> produces is the notice block followed by the bytes of the
  source, whatever \<^verbatim>\<open>mReplace\<close> is.
\<close>

theorem destination_is_notice_and_source:
  assumes "create_file s Directories Fname = Inr (True, s')"
    and "files s (source_path Directories Fname) = Some content"
    and "content = line @ newline @ rest"
    and "LF \<notin> set line"
    and "length line < 2 ^ 32"
    and "\<not> starts_with line (mCommentPrefix s)"
  shows "files s' (destination_path Directories Fname) =
         Some (notice_block (mCommentPrefix s) (mNotice s) @ content)"
  using create_file_destination [OF assms(1,2)] rewritten_plain [OF assms(3,4), of s] assms(3,6)
    take_uint32_t [OF assms(5)]
  by simp

theorem destination_is_notice_and_source_witness:
  "\<exists>s'. create_file
          ((example_world ''N'' [] [source_path example_directories ''a.c'' \<mapsto> ''int x;'' @ newline @ ''int y;''])
             \<lparr>mReplace := True\<rparr>)
          example_directories ''a.c'' = Inr (True, s')
      \<and> files s' (destination_path example_directories ''a.c'') =
          Some (''// N'' @ newline @ ''int x;'' @ newline @ ''int y;'')"
proof -
  let ?w = "(example_world ''N'' [] [source_path example_directories ''a.c'' \<mapsto> ''int x;'' @ newline @ ''int y;''])
             \<lparr>mReplace := True\<rparr>"
  have "\<exists>s'. create_file ?w example_directories ''a.c'' = Inr (True, s')"
    by (rule create_file_returns [where content = "''int x;'' @ newline @ ''int y;''"])
       (simp_all add: fexists_def)
  then obtain s' where r: "create_file ?w example_directories ''a.c'' = Inr (True, s')" ..
  have c: "files ?w (source_path example_directories ''a.c'') = Some (''int x;'' @ newline @ ''int y;'')"
    by simp
  have l: "LF \<notin> set ''int x;''" "length ''int x;'' < 2 ^ 32"
    "\<not> starts_with ''int x;'' (mCommentPrefix ?w)"
    by (simp_all add: starts_with_def)
  from destination_is_notice_and_source [OF r c refl l] r show ?thesis
    by (intro exI [of _ s']) (simp add: notice_block_def)
qed

text \<open>
  C2. When the notice consists of \<open>k\<close> segments with a CR LF between neighbours (no
  segment holding a CR LF itself), the destination file that \<^verbatim>\<open>create_file\<close> writes
  for a source that has a first line begins with \<open>k\<close> lines, the comment prefix, the segment and CR LF each, in the order
  of the segments; after them come the bytes of the first code line that line 723
  writes. A notice that ends with CR LF is one whose last segment is empty, and that
  segment has its line too.
\<close>

theorem notice_written_segment_by_segment:
  assumes "create_file s Directories Fname = Inr (True, s')"
    and "files s (source_path Directories Fname) = Some content"
    and "first_code_line (mCommentPrefix s) (mReplace s) content = Some (firstCodeLine, rest)"
    and "segments \<noteq> []"
    and "\<forall>segment\<in>set segments. crlf_free segment"
    and "mNotice s = join_crlf segments"
  shows "files s' (destination_path Directories Fname) =
           Some (concat (map (\<lambda>segment. mCommentPrefix s @ segment @ newline) segments)
                 @ take (uint32_t (length firstCodeLine)) firstCodeLine @ newline @ rest)
         \<and> join_crlf (segments @ [[]]) = join_crlf segments @ newline"
proof -
  from crlf_segments_join [OF assms(4,5)] assms(6)
  have "notice_block (mCommentPrefix s) (mNotice s) =
        concat (map (\<lambda>segment. mCommentPrefix s @ segment @ newline) segments)"
    by (simp add: notice_block_def)
  with create_file_destination [OF assms(1,2)] assms(3) join_crlf_trailing [OF assms(4)]
  show ?thesis by (simp add: rewritten_def)
qed

theorem notice_written_segment_by_segment_witness:
  "\<exists>s'. create_file
          (example_world (''Copyright'' @ newline @ ''Acme'' @ newline) []
             [source_path example_directories ''a.c'' \<mapsto> ''int x;'' @ newline @ ''int y;''])
          example_directories ''a.c'' = Inr (True, s')
      \<and> files s' (destination_path example_directories ''a.c'') =
          Some (''// Copyright'' @ newline @ ''// Acme'' @ newline @ ''// '' @ newline
                @ ''int x;'' @ newline @ ''int y;'')"
proof -
  let ?w = "example_world (''Copyright'' @ newline @ ''Acme'' @ newline) []
             [source_path example_directories ''a.c'' \<mapsto> ''int x;'' @ newline @ ''int y;'']"
  have "\<exists>s'. create_file ?w example_directories ''a.c'' = Inr (True, s')"
    by (rule create_file_returns [where content = "''int x;'' @ newline @ ''int y;''"])
       (simp_all add: example_directories_def source_path_def destination_path_def fexists_def)
  then obtain s' where r: "create_file ?w example_directories ''a.c'' = Inr (True, s')" ..
  have c: "files ?w (source_path example_directories ''a.c'') = Some (''int x;'' @ newline @ ''int y;'')"
    by simp
  have l: "first_code_line (mCommentPrefix ?w) (mReplace ?w) (''int x;'' @ newline @ ''int y;'')
           = Some (''int x;'', ''int y;'')"
    by (simp add: first_code_line_def freadline_def starts_with_def newline_def)
  have f: "\<forall>segment\<in>set [''Copyright'', ''Acme'', []]. crlf_free segment"
    by (simp add: crlf_free_def find_crlf_def)
  have n: "mNotice ?w = join_crlf [''Copyright'', ''Acme'', []]"
    by simp
  from notice_written_segment_by_segment [OF r c l _ f n] r show ?thesis
    by (intro exI [of _ s']) (simp add: uint32_t_small)
qed

text \<open>
  C3, as the spec states it, fails when the first line that is kept has no CR LF after
  it. With \<^verbatim>\<open>mReplace\<close> set and the source \<open>// old\<close>, CR LF, \<open>int x;\<close>, what
  follows the notice is \<open>int x;\<close> and a CR LF, not the stripped source \<open>int x;\<close>.
  With \<^verbatim>\<open>mReplace\<close> unset and the source \<open>// old\<close>, what follows the notice is
  \<open>// old\<close> and a CR LF, not the source.

  It fails as well when the length of the line that is kept does not fit 32 bits. With
  \<^verbatim>\<open>mReplace\<close> set and the source \<open>// old\<close>, CR LF, \<open>long_line\<close>, CR LF,
  \<open>int y;\<close>, line 723 writes no byte of \<open>long_line\<close>: what follows the notice is a
  CR LF and \<open>int y;\<close>. With \<^verbatim>\<open>mReplace\<close> unset and a source whose first line is
  the prefix and \<open>long_line\<close>, line 723 writes the three bytes of the prefix only.
\<close>

theorem leading_comments_replaced_counterexample:
  "starts_with ''// old'' ''// ''
   \<and> destination_after
        ((example_world ''N'' [] [source_path example_directories ''a.c'' \<mapsto> ''// old'' @ newline @ ''int x;''])
           \<lparr>mReplace := True\<rparr>)
        example_directories ''a.c''
       = Some (notice_block ''// '' ''N'' @ ''int x;'' @ newline)
   \<and> strip_leading_comments ''// '' (''// old'' @ newline @ ''int x;'') = ''int x;''
   \<and> ''int x;'' @ newline \<noteq> ''int x;''
   \<and> destination_after
        (example_world ''N'' [] [source_path example_directories ''a.c'' \<mapsto> ''// old''])
        example_directories ''a.c''
       = Some (notice_block ''// '' ''N'' @ ''// old'' @ newline)
   \<and> ''// old'' @ newline \<noteq> ''// old''
   \<and> destination_after
        ((example_world ''N'' []
            [source_path example_directories ''a.c'' \<mapsto>
               ''// old'' @ newline @ long_line @ newline @ ''int y;''])
           \<lparr>mReplace := True\<rparr>)
        example_directories ''a.c''
       = Some (notice_block ''// '' ''N'' @ newline @ ''int y;'')
   \<and> strip_leading_comments ''// '' (''// old'' @ newline @ long_line @ newline @ ''int y;'')
       = long_line @ newline @ ''int y;''
   \<and> newline @ ''int y;'' \<noteq> long_line @ newline @ ''int y;''
   \<and> starts_with (''// '' @ long_line) ''// ''
   \<and> destination_after
        (example_world ''N'' []
           [source_path example_directories ''a.c'' \<mapsto> (''// '' @ long_line) @ newline @ ''int y;''])
        example_directories ''a.c''
       = Some (notice_block ''// '' ''N'' @ ''// '' @ newline @ ''int y;'')
   \<and> ''// '' @ newline @ ''int y;'' \<noteq> (''// '' @ long_line) @ newline @ ''int y;''"
proof -
  let ?c = "''// old'' @ newline @ ''int x;''"
  let ?w = "(example_world ''N'' [] [source_path example_directories ''a.c'' \<mapsto> ?c])\<lparr>mReplace := True\<rparr>"
  let ?v = "example_world ''N'' [] [source_path example_directories ''a.c'' \<mapsto> ''// old'']"
  let ?t = "long_line @ newline @ ''int y;''"
  let ?cl = "''// old'' @ newline @ ?t"
  let ?wl = "(example_world ''N'' [] [source_path example_directories ''a.c'' \<mapsto> ?cl])\<lparr>mReplace := True\<rparr>"
  let ?p = "''// '' @ long_line"
  let ?cp = "?p @ newline @ ''int y;''"
  let ?vp = "example_world ''N'' [] [source_path example_directories ''a.c'' \<mapsto> ?cp]"
  have f2: "freadline ''int x;'' = (True, ''int x;'', [])"
    by (simp add: freadline_def)
  have k: "skip_comments ''// '' ''int x;'' = (''int x;'', [])"
    by (subst skip_comments.simps) (simp add: f2 starts_with_def)
  have r: "rewritten ?w ?c = notice_block ''// '' ''N'' @ ''int x;'' @ newline"
    by (simp add: rewritten_def first_code_line_def freadline_def newline_def k starts_with_def
          uint32_t_small)
  have r': "rewritten ?v ''// old'' = notice_block ''// '' ''N'' @ ''// old'' @ newline"
    by (simp add: rewritten_def first_code_line_def freadline_def newline_def starts_with_def
          uint32_t_small)
  have s: "strip_leading_comments ''// '' ?c = ''int x;''"
  proof -
    have "strip_leading_comments ''// '' ?c = strip_leading_comments ''// '' ''int x;''"
      by (subst strip_leading_comments.simps) (simp add: freadline_def newline_def starts_with_def)
    also have "\<dots> = ''int x;''"
      by (subst strip_leading_comments.simps) (simp add: f2 starts_with_def)
    finally show ?thesis .
  qed
  have fl: "freadline ?cl = (True, ''// old'', ?t)"
    by (rule freadline_crlf) simp
  have p: "starts_with ''// old'' ''// ''"
    by (simp add: starts_with_def)
  have sl: "strip_leading_comments ''// '' ?cl = ?t"
  proof -
    have "strip_leading_comments ''// '' ?cl = strip_leading_comments ''// '' ?t"
      by (subst strip_leading_comments.simps, subst fl) (simp add: p)
    also have "\<dots> = ?t"
      by (subst strip_leading_comments.simps, subst freadline_crlf [OF long_line_LF])
         (simp add: long_line_code)
    finally show ?thesis .
  qed
  have "rewritten ?wl ?cl = notice_block (mCommentPrefix ?wl) (mNotice ?wl)
          @ take (uint32_t (length long_line)) long_line @ newline @ ''int y;''"
  proof (rule rewritten_replace [OF fl _ _ _ long_line_LF])
    show "starts_with ''// old'' (mCommentPrefix ?wl)" using p by simp
    show "mReplace ?wl" by simp
    show "strip_leading_comments (mCommentPrefix ?wl) ?cl = ?t" using sl by simp
  qed
  then have rl: "rewritten ?wl ?cl = notice_block ''// '' ''N'' @ newline @ ''int y;''"
    by (simp add: long_line_written)
  have lp: "LF \<notin> set ?p"
    using long_line_LF by simp
  have up: "take (uint32_t (length ?p)) ?p = ''// ''"
    by (simp add: long_line_length uint32_t_def)
  have "rewritten ?vp ?cp = notice_block (mCommentPrefix ?vp) (mNotice ?vp)
          @ take (uint32_t (length ?p)) ?p @ newline @ ''int y;''"
    by (rule rewritten_plain [OF refl lp]) simp
  then have rp: "rewritten ?vp ?cp = notice_block ''// '' ''N'' @ ''// '' @ newline @ ''int y;''"
    unfolding up by simp
  have n: "newline @ ''int y;'' \<noteq> ?t"
    by (subst long_line_Cons) (simp add: newline_def)
  have "destination_after ?w example_directories ''a.c'' = Some (rewritten ?w ?c)"
    by (rule destination_after_written) (simp_all add: fexists_def)
  moreover have "destination_after ?v example_directories ''a.c'' = Some (rewritten ?v ''// old'')"
    by (rule destination_after_written) (simp_all add: fexists_def)
  moreover have "destination_after ?wl example_directories ''a.c'' = Some (rewritten ?wl ?cl)"
    by (rule destination_after_written) (simp_all add: fexists_def)
  moreover have "destination_after ?vp example_directories ''a.c'' = Some (rewritten ?vp ?cp)"
    by (rule destination_after_written) (simp_all add: fexists_def)
  moreover have "newline \<noteq> []" by (simp add: newline_def)
  ultimately show ?thesis
    unfolding r r' rl rp s sl using n by (simp add: starts_with_def)
qed

text \<open>
  C3, amended. Let the source file begin with a line that starts with the comment
  prefix. When \<^verbatim>\<open>mReplace\<close> is set and the source stripped of its leading prefix lines
  begins with a line that is terminated by CR LF and shorter than \<open>2^32\<close> bytes, the
  destination file is the notice block followed by that stripped source. When
  \<^verbatim>\<open>mReplace\<close> is unset and the first line of the source is terminated by CR LF and
  shorter than \<open>2^32\<close> bytes, the destination file is the notice block followed by the
  source unchanged. (Nothing is said of a source that has only prefix lines.)
\<close>

theorem leading_comments_replaced:
  assumes "create_file s Directories Fname = Inr (True, s')"
    and "files s (source_path Directories Fname) = Some content"
    and "freadline content = (True, first, after)"
    and "starts_with first (mCommentPrefix s)"
    and "if mReplace s
         then strip_leading_comments (mCommentPrefix s) content = line @ newline @ rest
              \<and> LF \<notin> set line \<and> length line < 2 ^ 32
         else content = first @ newline @ after \<and> LF \<notin> set first \<and> length first < 2 ^ 32"
  shows "files s' (destination_path Directories Fname) =
         Some (notice_block (mCommentPrefix s) (mNotice s)
               @ (if mReplace s then strip_leading_comments (mCommentPrefix s) content else content))"
proof (cases "mReplace s")
  case True
  with assms(5) have l: "strip_leading_comments (mCommentPrefix s) content = line @ newline @ rest"
    "LF \<notin> set line" and b: "length line < 2 ^ 32" by simp_all
  from rewritten_replace [OF assms(3,4) True l] create_file_destination [OF assms(1,2)] True
    l(1) take_uint32_t [OF b]
  show ?thesis by simp
next
  case False
  with assms(5) have l: "content = first @ newline @ after" "LF \<notin> set first"
    and b: "length first < 2 ^ 32" by simp_all
  from rewritten_plain [OF l, of s] False create_file_destination [OF assms(1,2)]
    l(1) take_uint32_t [OF b]
  show ?thesis by simp
qed

theorem leading_comments_replaced_witness:
  "(\<exists>s'. create_file
          ((example_world ''N'' []
              [source_path example_directories ''a.c'' \<mapsto>
                 ''// old'' @ newline @ ''// older'' @ newline @ ''int x;'' @ newline @ ''int y;''])
             \<lparr>mReplace := True\<rparr>)
          example_directories ''a.c'' = Inr (True, s')
      \<and> files s' (destination_path example_directories ''a.c'') =
          Some (''// N'' @ newline @ ''int x;'' @ newline @ ''int y;''))
   \<and> (\<exists>s'. create_file
          (example_world ''N'' []
              [source_path example_directories ''a.c'' \<mapsto>
                 ''// old'' @ newline @ ''// older'' @ newline @ ''int x;'' @ newline @ ''int y;''])
          example_directories ''a.c'' = Inr (True, s')
      \<and> files s' (destination_path example_directories ''a.c'') =
          Some (''// N'' @ newline @ ''// old'' @ newline @ ''// older'' @ newline
                @ ''int x;'' @ newline @ ''int y;''))"
proof -
  let ?c = "''// old'' @ newline @ ''// older'' @ newline @ ''int x;'' @ newline @ ''int y;''"
  let ?v = "example_world ''N'' [] [source_path example_directories ''a.c'' \<mapsto> ?c]"
  let ?w = "?v\<lparr>mReplace := True\<rparr>"
  have f: "freadline ?c = (True, ''// old'', ''// older'' @ newline @ ''int x;'' @ newline @ ''int y;'')"
    by (rule freadline_crlf) simp
  have p: "starts_with ''// old'' ''// ''"
    by (simp add: starts_with_def)
  have t: "strip_leading_comments ''// '' ?c = ''int x;'' @ newline @ ''int y;''"
  proof -
    have "strip_leading_comments ''// '' ?c
        = strip_leading_comments ''// '' (''// older'' @ newline @ ''int x;'' @ newline @ ''int y;'')"
      by (subst strip_leading_comments.simps) (simp add: freadline_def newline_def starts_with_def)
    also have "\<dots> = strip_leading_comments ''// '' (''int x;'' @ newline @ ''int y;'')"
      by (subst strip_leading_comments.simps) (simp add: freadline_def newline_def starts_with_def)
    also have "\<dots> = ''int x;'' @ newline @ ''int y;''"
      by (subst strip_leading_comments.simps) (simp add: freadline_def newline_def starts_with_def)
    finally show ?thesis .
  qed
  have "\<exists>s'. create_file ?w example_directories ''a.c'' = Inr (True, s')"
    by (rule create_file_returns [where content = ?c]) (simp_all add: fexists_def)
  then obtain s1 where r1: "create_file ?w example_directories ''a.c'' = Inr (True, s1)" ..
  have "\<exists>s'. create_file ?v example_directories ''a.c'' = Inr (True, s')"
    by (rule create_file_returns [where content = ?c]) (simp_all add: fexists_def)
  then obtain s2 where r2: "create_file ?v example_directories ''a.c'' = Inr (True, s2)" ..
  have h1: "if mReplace ?w
      then strip_leading_comments (mCommentPrefix ?w) ?c = ''int x;'' @ newline @ ''int y;''
           \<and> LF \<notin> set ''int x;'' \<and> length ''int x;'' < 2 ^ 32
      else ?c = ''// old'' @ newline @ (''// older'' @ newline @ ''int x;'' @ newline @ ''int y;'')
           \<and> LF \<notin> set ''// old'' \<and> length ''// old'' < 2 ^ 32"
    using t by simp
  have h2: "if mReplace ?v
      then strip_leading_comments (mCommentPrefix ?v) ?c = ''int x;'' @ newline @ ''int y;''
           \<and> LF \<notin> set ''int x;'' \<and> length ''int x;'' < 2 ^ 32
      else ?c = ''// old'' @ newline @ (''// older'' @ newline @ ''int x;'' @ newline @ ''int y;'')
           \<and> LF \<notin> set ''// old'' \<and> length ''// old'' < 2 ^ 32"
    by simp
  have c1: "files ?w (source_path example_directories ''a.c'') = Some ?c" by simp
  have c2: "files ?v (source_path example_directories ''a.c'') = Some ?c" by simp
  have p1: "starts_with ''// old'' (mCommentPrefix ?w)" using p by simp
  have p2: "starts_with ''// old'' (mCommentPrefix ?v)" using p by simp
  from leading_comments_replaced [OF r1 c1 f p1 h1] t
  have d1: "files s1 (destination_path example_directories ''a.c'') =
      Some (''// N'' @ newline @ ''int x;'' @ newline @ ''int y;'')"
    by (simp add: notice_block_def)
  from leading_comments_replaced [OF r2 c2 f p2 h2]
  have d2: "files s2 (destination_path example_directories ''a.c'') =
      Some (''// N'' @ newline @ ''// old'' @ newline @ ''// older'' @ newline @ ''int x;'' @ newline @ ''int y;'')"
    by (simp add: notice_block_def)
  from r1 d1 r2 d2 show ?thesis by blast
qed

text \<open>
  C4, as the spec states it, fails: \<^verbatim>\<open>create_file\<close> creates the destination before it
  reads the first line of the source. For an empty source and no file at the
  destination, the destination exists and is empty after the call, and the loop of
  \<^verbatim>\<open>iterate\<close> counts one file created.
\<close>

theorem empty_source_counterexample:
  "files (example_world ''N'' [] [source_path example_directories ''a.c'' \<mapsto> []])
     (destination_path example_directories ''a.c'') = None
   \<and> destination_after (example_world ''N'' [] [source_path example_directories ''a.c'' \<mapsto> []])
        example_directories ''a.c'' = Some []
   \<and> map_sum id fst
        (iterate_loop (example_world ''N'' [] [source_path example_directories ''a.c'' \<mapsto> []])
           example_directories [\<lparr>attr_directory = False, attr_hidden = False, cFileName = ''a.c''\<rparr>] 0)
       = Inr 1"
proof -
  let ?w = "example_world ''N'' [] [source_path example_directories ''a.c'' \<mapsto> []]"
  have "\<exists>s'. create_file ?w example_directories ''a.c'' = Inr (True, s')"
    by (rule create_file_returns [where content = "[]"]) simp_all
  then obtain s' where r: "create_file ?w example_directories ''a.c'' = Inr (True, s')" ..
  have "destination_after ?w example_directories ''a.c'' = Some (rewritten ?w [])"
    by (rule destination_after_written) simp_all
  with r show ?thesis by simp
qed

text \<open>
  C4, amended. For an empty source file that can be opened, with a destination that
  can be created and no refusal to overwrite (the policy is "always overwrite", or no
  file is at the destination, or the answer is yes), \<^verbatim>\<open>create_file\<close> writes the
  message that the source is empty and returns true; it leaves the destination file
  created and empty, every other file as it was; and the loop of \<^verbatim>\<open>iterate\<close> adds one
  to the counter of files created for that source.
\<close>

theorem empty_source_leaves_empty_destination:
  assumes "files s (source_path Directories Fname) = Some []"
    and "\<not> access_denied s (source_path Directories Fname)"
    and "destination_path Directories Fname \<noteq> source_path Directories Fname"
    and "\<not> access_denied s (destination_path Directories Fname)"
    and "mAlwaysOverwriteFiles s \<or> \<not> fexists s (destination_path Directories Fname)
         \<or> answer s = Some True"
    and "\<not> attr_hidden findData" and "\<not> attr_directory findData"
    and "cFileName findData = Fname"
  shows "\<exists>s'. create_file s Directories Fname = Inr (True, s')
           \<and> (\<exists>before. written (mCons s') = before @ [SourceEmpty Fname])
           \<and> files s' = (files s)(destination_path Directories Fname \<mapsto> [])
           \<and> iterate_loop s Directories (findData # entries) filesCreated =
               iterate_loop s' Directories entries (filesCreated + 1)"
proof -
  from create_file_returns [OF assms(1-5)] obtain s'
    where r: "create_file s Directories Fname = Inr (True, s')" ..
  from r obtain content s3 where "files s (source_path Directories Fname) = Some content"
    and "s' = after_creation s3 Directories Fname content"
    by (rule create_file_Inr) blast
  with assms(1) have "s' = after_creation s3 Directories Fname []" by simp
  with after_creation_empty [of s3 Directories Fname]
  have w: "\<exists>before. written (mCons s') = before @ [SourceEmpty Fname]" by simp
  from create_file_fields(5) [OF r _ assms(1)]
  have f: "files s' = (files s)(destination_path Directories Fname \<mapsto> [])" by simp
  from r assms(6-8) have "iterate_loop s Directories (findData # entries) filesCreated =
      iterate_loop s' Directories entries (filesCreated + 1)" by simp
  with r w f show ?thesis by blast
qed

theorem empty_source_leaves_empty_destination_witness:
  "\<exists>s'. create_file (example_world ''N'' [] [source_path example_directories ''a.c'' \<mapsto> []])
          example_directories ''a.c'' = Inr (True, s')
      \<and> (\<exists>before. written (mCons s') = before @ [SourceEmpty ''a.c''])
      \<and> files s' (destination_path example_directories ''a.c'') = Some []
      \<and> iterate_loop (example_world ''N'' [] [source_path example_directories ''a.c'' \<mapsto> []])
           example_directories [\<lparr>attr_directory = False, attr_hidden = False, cFileName = ''a.c''\<rparr>] 0
         = Inr (1, s')"
  using empty_source_leaves_empty_destination
    [of "example_world ''N'' [] [source_path example_directories ''a.c'' \<mapsto> []]"
        example_directories "''a.c''"
        "\<lparr>attr_directory = False, attr_hidden = False, cFileName = ''a.c''\<rparr>" "[]" 0]
  by auto

text \<open>
  C5. The policy is "ask every time" in a new instance, and the directory loops of
  \<^verbatim>\<open>init\<close> leave it so. A call of \<^verbatim>\<open>create_file\<close> that returns leaves the policy
  "always overwrite" exactly when it was so before or the destination existed and the
  user answered yes to the question: it is set by that answer and never unset. Once it
  is "always overwrite", every call of \<^verbatim>\<open>create_file\<close> goes on to write without
  putting the question or reading from the console, and so do the loops of
  \<^verbatim>\<open>iterate\<close> and \<^verbatim>\<open>execute\<close> to the end of the run, where the policy still is
  "always overwrite".
\<close>

theorem overwrite_policy_sticky:
  "\<not> mAlwaysOverwriteFiles (new_instance typed disk denied enumeration)
   \<and> (init_directories fuel s = Some (Inr s') \<longrightarrow>
        mAlwaysOverwriteFiles s' = mAlwaysOverwriteFiles s)
   \<and> (create_file s Directories Fname = Inr (created, s') \<longrightarrow>
        mAlwaysOverwriteFiles s' =
          (mAlwaysOverwriteFiles s
           \<or> fexists s (destination_path Directories Fname) \<and> answer s = Some True))
   \<and> (mAlwaysOverwriteFiles s \<and> create_file s Directories Fname = Inr (created, s') \<longrightarrow>
        created \<and> unasked s s')
   \<and> (mAlwaysOverwriteFiles s \<and> iterate_loop s Directories entries filesCreated = Inr (filesCreated', s') \<longrightarrow>
        unasked s s')
   \<and> (mAlwaysOverwriteFiles s \<and> iterate s Directories Extension = Inr (filesCreated', s') \<longrightarrow>
        unasked s s')
   \<and> (mAlwaysOverwriteFiles s \<and> execute_directories s directories filesCreated = Inr (filesCreated', s') \<longrightarrow>
        unasked s s')
   \<and> (mAlwaysOverwriteFiles s \<and> execute s = Inr s' \<longrightarrow> unasked s s')"
proof (intro conjI impI)
  show "\<not> mAlwaysOverwriteFiles (new_instance typed disk denied enumeration)"
    by (simp add: new_instance_def)
next
  assume "init_directories fuel s = Some (Inr s')"
  then show "mAlwaysOverwriteFiles s' = mAlwaysOverwriteFiles s"
    by (rule init_directories_flag)
next
  assume "create_file s Directories Fname = Inr (created, s')"
  then show "mAlwaysOverwriteFiles s' =
          (mAlwaysOverwriteFiles s
           \<or> fexists s (destination_path Directories Fname) \<and> answer s = Some True)"
    by (rule create_file_fields(2))
next
  assume a: "mAlwaysOverwriteFiles s \<and> create_file s Directories Fname = Inr (created, s')"
  from create_file_unasked [of s Directories Fname created s'] a
  show "created" and "unasked s s'" by simp_all
next
  assume "mAlwaysOverwriteFiles s \<and> iterate_loop s Directories entries filesCreated = Inr (filesCreated', s')"
  then show "unasked s s'" by (blast intro: iterate_loop_unasked)
next
  assume "mAlwaysOverwriteFiles s \<and> iterate s Directories Extension = Inr (filesCreated', s')"
  then show "unasked s s'" by (blast intro: iterate_unasked)
next
  assume "mAlwaysOverwriteFiles s \<and> execute_directories s directories filesCreated = Inr (filesCreated', s')"
  then show "unasked s s'" by (blast intro: execute_directories_unasked)
next
  assume "mAlwaysOverwriteFiles s \<and> execute s = Inr s'"
  then show "unasked s s'" by (blast intro: execute_unasked)
qed

theorem overwrite_policy_sticky_witness:
  "\<exists>s1 s2.
     \<not> mAlwaysOverwriteFiles
        (example_world ''N'' [''y'']
           [source_path example_directories ''a.c'' \<mapsto> ''int x;'',
            destination_path example_directories ''a.c'' \<mapsto> ''old'',
            source_path example_directories ''b.c'' \<mapsto> ''int y;'',
            destination_path example_directories ''b.c'' \<mapsto> ''old''])
     \<and> create_file
          (example_world ''N'' [''y'']
           [source_path example_directories ''a.c'' \<mapsto> ''int x;'',
            destination_path example_directories ''a.c'' \<mapsto> ''old'',
            source_path example_directories ''b.c'' \<mapsto> ''int y;'',
            destination_path example_directories ''b.c'' \<mapsto> ''old''])
          example_directories ''a.c'' = Inr (True, s1)
     \<and> mAlwaysOverwriteFiles s1
     \<and> pending (mCons s1) = []
     \<and> fexists s1 (destination_path example_directories ''b.c'')
     \<and> create_file s1 example_directories ''b.c'' = Inr (True, s2)
     \<and> mAlwaysOverwriteFiles s2
     \<and> pending (mCons s2) = pending (mCons s1)
     \<and> questions s2 = questions s1"
proof -
  let ?disk = "[source_path example_directories ''a.c'' \<mapsto> ''int x;'',
            destination_path example_directories ''a.c'' \<mapsto> ''old'',
            source_path example_directories ''b.c'' \<mapsto> ''int y;'',
            destination_path example_directories ''b.c'' \<mapsto> ''old'']"
  let ?w = "example_world ''N'' [''y''] ?disk"
  have paths: "source_path example_directories ''a.c'' = ''in'' @ [backslash] @ ''a.c''"
    "source_path example_directories ''b.c'' = ''in'' @ [backslash] @ ''b.c''"
    "destination_path example_directories ''a.c'' = ''out'' @ [backslash] @ ''a.c''"
    "destination_path example_directories ''b.c'' = ''out'' @ [backslash] @ ''b.c''"
    by (simp_all add: source_path_def destination_path_def example_directories_def)
  have a: "answer ?w = Some True"
    by (simp add: answer_def ask_yesno_def)
  have ca: "files ?w (source_path example_directories ''a.c'') = Some ''int x;''"
    and cb: "files ?w (source_path example_directories ''b.c'') = Some ''int y;''"
    and ea: "fexists ?w (destination_path example_directories ''a.c'')"
    and eb: "fexists ?w (destination_path example_directories ''b.c'')"
    by (simp_all add: paths fexists_def)
  have "\<exists>s'. create_file ?w example_directories ''a.c'' = Inr (True, s')"
    using a by (intro create_file_returns [OF ca]) simp_all
  then obtain s1 where r1: "create_file ?w example_directories ''a.c'' = Inr (True, s1)" ..
  note t1 = overwrite_policy_sticky [where s = ?w and s' = s1 and Directories = example_directories
      and Fname = "''a.c''" and created = True]
  from t1 r1 ea a have f1: "mAlwaysOverwriteFiles s1" by blast
  note flds = create_file_fields [OF r1]
  from flds(5) [OF _ ca]
  have fs1: "files s1 = (files ?w)(destination_path example_directories ''a.c'' \<mapsto> rewritten ?w ''int x;'')"
    by simp
  from flds(1) have den: "access_denied s1 = access_denied ?w" by (simp add: same_settings_def)
  from fs1 cb have cb1: "files s1 (source_path example_directories ''b.c'') = Some ''int y;''"
    by (simp add: paths)
  from fs1 eb have eb1: "fexists s1 (destination_path example_directories ''b.c'')"
    by (simp add: fexists_def paths)
  have "\<exists>s'. create_file s1 example_directories ''b.c'' = Inr (True, s')"
    using f1 den by (intro create_file_returns [OF cb1]) simp_all
  then obtain s2 where r2: "create_file s1 example_directories ''b.c'' = Inr (True, s2)" ..
  note t2 = overwrite_policy_sticky [where s = s1 and s' = s2 and Directories = example_directories
      and Fname = "''b.c''" and created = True]
  from t2 f1 r2 have u: "unasked s1 s2" by blast
  from r1 obtain s3 where
    q: "confirm_overwrite (at_question ?w example_directories ''a.c'')
          (destination_path example_directories ''a.c'') = Inr (True, s3)"
    and s1: "s1 = after_creation s3 example_directories ''a.c'' ''int x;''"
    using ca by (auto elim!: create_file_Inr)
  have p1: "pending (mCons s1) = []"
    using q unfolding s1
    by (auto simp: confirm_overwrite_def ask_yesno_def fexists_def paths)
  from r1 f1 p1 eb1 r2 u show ?thesis
    by (auto simp: unasked_def)
qed

text \<open>
  C6. When the destination file exists, the policy is still "ask every time" (so that
  the question is put) and the user answers no, \<^verbatim>\<open>create_file\<close> returns false, every
  file on the disk, the destination among them, holds the bytes it held, and the loop
  of \<^verbatim>\<open>iterate\<close> goes on with the counter of files created unchanged.
\<close>

theorem declined_overwrite_changes_nothing:
  assumes "files s (source_path Directories Fname) = Some content"
    and "\<not> access_denied s (source_path Directories Fname)"
    and "\<not> mAlwaysOverwriteFiles s"
    and "fexists s (destination_path Directories Fname)"
    and "answer s = Some False"
    and "\<not> attr_hidden findData" and "\<not> attr_directory findData"
    and "cFileName findData = Fname"
  shows "\<exists>s'. create_file s Directories Fname = Inr (False, s')
           \<and> files s' = files s
           \<and> files s' (destination_path Directories Fname) = files s (destination_path Directories Fname)
           \<and> iterate_loop s Directories (findData # entries) filesCreated =
               iterate_loop s' Directories entries filesCreated"
proof -
  from create_file_declines [OF assms(1-5)] obtain s'
    where r: "create_file s Directories Fname = Inr (False, s')" ..
  from create_file_fields(4) [OF r] have f: "files s' = files s" by simp
  from r assms(6-8) have "iterate_loop s Directories (findData # entries) filesCreated =
      iterate_loop s' Directories entries filesCreated" by simp
  with r f show ?thesis by simp
qed

theorem declined_overwrite_changes_nothing_witness:
  "\<exists>s'. create_file
          (example_world ''N'' [''maybe'', ''n'']
             [source_path example_directories ''a.c'' \<mapsto> ''int x;'',
              destination_path example_directories ''a.c'' \<mapsto> ''kept''])
          example_directories ''a.c'' = Inr (False, s')
      \<and> files s' (destination_path example_directories ''a.c'') = Some ''kept''
      \<and> iterate_loop
           (example_world ''N'' [''maybe'', ''n'']
             [source_path example_directories ''a.c'' \<mapsto> ''int x;'',
              destination_path example_directories ''a.c'' \<mapsto> ''kept''])
           example_directories [\<lparr>attr_directory = False, attr_hidden = False, cFileName = ''a.c''\<rparr>] 0
         = Inr (0, s')"
proof -
  let ?w = "example_world ''N'' [''maybe'', ''n'']
             [source_path example_directories ''a.c'' \<mapsto> ''int x;'',
              destination_path example_directories ''a.c'' \<mapsto> ''kept'']"
  have p: "source_path example_directories ''a.c'' \<noteq> destination_path example_directories ''a.c''"
    by (rule not_sym) (rule example_paths)
  have a: "answer ?w = Some False"
    by (simp add: answer_def ask_yesno_def)
  have c: "files ?w (source_path example_directories ''a.c'') = Some ''int x;''"
    using p by simp
  have e: "fexists ?w (destination_path example_directories ''a.c'')"
    by (simp add: fexists_def)
  from declined_overwrite_changes_nothing [OF c _ _ e a,
      of "\<lparr>attr_directory = False, attr_hidden = False, cFileName = ''a.c''\<rparr>" "[]" 0]
  show ?thesis by (auto simp: fexists_def)
qed

text \<open>
  C7. Without \<^verbatim>\<open>mRecurse\<close>, \<^verbatim>\<open>target_directories\<close> adds no pair and \<^verbatim>\<open>init\<close> leaves
  the configured pairs as they are. With \<^verbatim>\<open>mRecurse\<close>, for a directory \<open>A\<close> whose
  subdirectories (not hidden, not a dot entry) are \<open>B\<close> and \<open>C\<close>, which have none
  themselves, \<^verbatim>\<open>target_directories\<close> adds the pair of \<open>B\<close> and the pair of \<open>C\<close>,
  and \<^verbatim>\<open>init\<close> ends with the pairs of \<open>A\<close>, \<open>B\<close> and \<open>C\<close>, once each. The pair of
  a subdirectory has its name appended to the source and to the destination of the pair
  it was found in. Entries that are no directories, hidden entries and the two dot
  entries are passed over.
\<close>

theorem directory_expansion:
  "(\<not> mRecurse s \<longrightarrow>
      target_directories (Suc fuel) s A New =
        Some (Inr (New, cons_write (TargetDirectory (src A) (dst A)) s))
      \<and> (\<exists>s'. init_directories (Suc fuel) s = Some (Inr s') \<and> mDirectories s' = mDirectories s))
   \<and> (mRecurse s \<and> subdirectories s A = Some [B, C]
        \<and> subdirectories s (new_directory A B) = Some []
        \<and> subdirectories s (new_directory A C) = Some [] \<longrightarrow>
      (\<exists>s'. target_directories (Suc (Suc fuel)) s A New =
              Some (Inr (New @ [new_directory A B, new_directory A C], s')))
      \<and> (mDirectories s = [A] \<and> B \<noteq> C \<and> B \<noteq> [] \<and> C \<noteq> [] \<longrightarrow>
           (\<exists>s'. init_directories (Suc (Suc fuel)) s = Some (Inr s')
                  \<and> mDirectories s' = [A, new_directory A B, new_directory A C])))
   \<and> src (new_directory A B) = (if src A = [] then B else src A @ [backslash] @ B)
   \<and> dst (new_directory A B) = dst A @ [backslash] @ B
   \<and> (\<not> attr_directory findData \<or> attr_hidden findData
        \<or> cFileName findData = ''.'' \<or> cFileName findData = ''..'' \<longrightarrow>
      target_directories_loop fuel s A (findData # entries) errorCode New =
      target_directories_loop fuel s A entries errorCode New)"
proof (intro conjI impI)
  assume n: "\<not> mRecurse s"
  then show "target_directories (Suc fuel) s A New =
        Some (Inr (New, cons_write (TargetDirectory (src A) (dst A)) s))"
    by (rule target_directories_no_recurse)
  from init_target_loop_no_recurse [OF n, of fuel "mDirectories s" "[]"] obtain s' where
    "init_target_loop (Suc fuel) s (mDirectories s) [] = Some (Inr ([], s'))" "console_only s s'"
    by blast
  then show "\<exists>s'. init_directories (Suc fuel) s = Some (Inr s') \<and> mDirectories s' = mDirectories s"
    by (simp add: init_directories_def console_only_fields)
next
  assume a: "mRecurse s \<and> subdirectories s A = Some [B, C]
        \<and> subdirectories s (new_directory A B) = Some []
        \<and> subdirectories s (new_directory A C) = Some []"
  then have "\<forall>name\<in>set [B, C]. subdirectories s (new_directory A name) = Some []" by simp
  with a target_directories_one_level [of s A "[B, C]" fuel New]
  show "\<exists>s'. target_directories (Suc (Suc fuel)) s A New =
              Some (Inr (New @ [new_directory A B, new_directory A C], s'))"
    by auto
next
  assume a: "mRecurse s \<and> subdirectories s A = Some [B, C]
        \<and> subdirectories s (new_directory A B) = Some []
        \<and> subdirectories s (new_directory A C) = Some []"
    and d: "mDirectories s = [A] \<and> B \<noteq> C \<and> B \<noteq> [] \<and> C \<noteq> []"
  from a have "\<forall>name\<in>set [B, C]. subdirectories s (new_directory A name) = Some []" by simp
  with a target_directories_one_level [of s A "[B, C]" fuel "[]"] obtain s1 where
    t: "target_directories (Suc (Suc fuel)) s A [] = Some (Inr ([new_directory A B, new_directory A C], s1))"
    and c: "console_only s s1" by auto
  from t d have l: "init_target_loop (Suc (Suc fuel)) s (mDirectories s) [] =
      Some (Inr ([new_directory A B, new_directory A C], s1))"
    by (simp del: target_directories.simps)
  from c d have m: "mDirectories s1 = [A]" by (simp add: console_only_fields)
  have "mDirectories (init_add_loop s1 [new_directory A B, new_directory A C]) =
        mDirectories s1 @ [new_directory A B, new_directory A C]"
  proof (rule init_add_loop_fresh)
    show "distinct (map src [new_directory A B, new_directory A C])"
      using d by (simp add: new_directory_src_inj)
    show "\<forall>n\<in>set [new_directory A B, new_directory A C]. \<forall>D\<in>set (mDirectories s1). src D \<noteq> src n"
      using d m new_directory_src_differs [of B A] new_directory_src_differs [of C A]
      by (auto simp del: init_add_loop.simps)
  qed
  with l m show "\<exists>s'. init_directories (Suc (Suc fuel)) s = Some (Inr s')
                  \<and> mDirectories s' = [A, new_directory A B, new_directory A C]"
    by (simp add: init_directories_def del: init_add_loop.simps init_target_loop.simps)
next
  show "src (new_directory A B) = (if src A = [] then B else src A @ [backslash] @ B)"
    by (simp add: new_directory_def)
  show "dst (new_directory A B) = dst A @ [backslash] @ B"
    by (simp add: new_directory_def)
next
  assume "\<not> attr_directory findData \<or> attr_hidden findData
        \<or> cFileName findData = ''.'' \<or> cFileName findData = ''..''"
  then have "\<not> eligible findData" by (auto simp: eligible_def is_dot_entry_def)
  then show "target_directories_loop fuel s A (findData # entries) errorCode New =
      target_directories_loop fuel s A entries errorCode New"
    by (rule target_directories_loop_skip)
qed

theorem directory_expansion_witness:
  "(\<exists>s'. init_directories (Suc (Suc 0))
           ((new_instance [] Map.empty (\<lambda>path. False) example_enumeration)
              \<lparr>mRecurse := True, mDirectories := [example_directories]\<rparr>)
         = Some (Inr s')
       \<and> mDirectories s' =
           [\<lparr>src = ''in'', dst = ''out''\<rparr>,
            \<lparr>src = ''in'' @ [backslash] @ ''B'', dst = ''out'' @ [backslash] @ ''B''\<rparr>,
            \<lparr>src = ''in'' @ [backslash] @ ''C'', dst = ''out'' @ [backslash] @ ''C''\<rparr>])
   \<and> (\<exists>s'. init_directories (Suc 0)
           ((new_instance [] Map.empty (\<lambda>path. False) example_enumeration)
              \<lparr>mDirectories := [example_directories]\<rparr>)
         = Some (Inr s')
       \<and> mDirectories s' = [\<lparr>src = ''in'', dst = ''out''\<rparr>])"
proof -
  let ?w = "(new_instance [] Map.empty (\<lambda>path. False) example_enumeration)
              \<lparr>mRecurse := True, mDirectories := [example_directories]\<rparr>"
  let ?v = "(new_instance [] Map.empty (\<lambda>path. False) example_enumeration)
              \<lparr>mDirectories := [example_directories]\<rparr>"
  have r: "mRecurse ?w" "\<not> mRecurse ?v"
    by (simp_all add: new_instance_def)
  have a: "subdirectories ?w example_directories = Some [''B'', ''C'']"
    by (simp add: subdirectories_def new_instance_def example_enumeration_def eligible_def
          is_dot_entry_def)
  have b: "subdirectories ?w (new_directory example_directories ''B'') = Some []"
    by (simp add: subdirectories_def new_instance_def example_enumeration_def eligible_def
          is_dot_entry_def search_string_def new_directory_def example_directories_def)
  have c: "subdirectories ?w (new_directory example_directories ''C'') = Some []"
    by (simp add: subdirectories_def new_instance_def example_enumeration_def eligible_def
          is_dot_entry_def search_string_def new_directory_def example_directories_def)
  have d: "mDirectories ?w = [example_directories]" "mDirectories ?v = [example_directories]"
    by (simp_all add: new_instance_def)
  have ne: "''B'' \<noteq> ''C''" "''B'' \<noteq> []" "''C'' \<noteq> []"
    by simp_all
  have "\<exists>s'. init_directories (Suc (Suc 0)) ?w = Some (Inr s') \<and>
      mDirectories s' = [example_directories, new_directory example_directories ''B'',
                         new_directory example_directories ''C'']"
    using directory_expansion [of ?w 0 example_directories "[]" "''B''" "''C''",
        THEN conjunct2, THEN conjunct1] r(1) a b c d(1) ne
    by blast
  then obtain s1 where
    s1: "init_directories (Suc (Suc 0)) ?w = Some (Inr s1)"
    "mDirectories s1 = [example_directories, new_directory example_directories ''B'',
                        new_directory example_directories ''C'']"
    by blast
  have "\<exists>s'. init_directories (Suc 0) ?v = Some (Inr s') \<and> mDirectories s' = mDirectories ?v"
    using directory_expansion [of ?v 0 example_directories "[]", THEN conjunct1] r(2)
    by blast
  then obtain s2 where
    s2: "init_directories (Suc 0) ?v = Some (Inr s2)" "mDirectories s2 = mDirectories ?v"
    by blast
  have "mDirectories s1 =
           [\<lparr>src = ''in'', dst = ''out''\<rparr>,
            \<lparr>src = ''in'' @ [backslash] @ ''B'', dst = ''out'' @ [backslash] @ ''B''\<rparr>,
            \<lparr>src = ''in'' @ [backslash] @ ''C'', dst = ''out'' @ [backslash] @ ''C''\<rparr>]"
    unfolding s1(2) by (simp add: example_directories_def new_directory_def)
  moreover have "mDirectories s2 = [\<lparr>src = ''in'', dst = ''out''\<rparr>]"
    unfolding s2(2) by (simp add: new_instance_def example_directories_def)
  ultimately show ?thesis using s1(1) s2(1) by blast
qed

text \<open>
  C8. With the policy "always overwrite", a call of \<^verbatim>\<open>create_file\<close> that returns can be
  made again in the state it left, for the same pair and file name: the second call
  returns the same value and leaves every file, the destination among them, with the
  bytes the first call left. The destination depends on the notice, the prefix, the
  replace flag and the source only: a call in another state that agrees on these leaves
  the same destination file.
\<close>

theorem rewrite_twice_same_destination:
  assumes "mAlwaysOverwriteFiles s"
    and "create_file s Directories Fname = Inr (created, s1)"
  shows "(\<exists>s2. create_file s1 Directories Fname = Inr (created, s2) \<and> files s2 = files s1)
         \<and> (mAlwaysOverwriteFiles t \<and> create_file t Directories Fname = Inr (created', t1)
              \<and> mNotice t = mNotice s \<and> mCommentPrefix t = mCommentPrefix s \<and> mReplace t = mReplace s
              \<and> files t (source_path Directories Fname) = files s (source_path Directories Fname)
              \<longrightarrow> files t1 (destination_path Directories Fname) = files s1 (destination_path Directories Fname))"
proof -
  note f = create_file_fields [OF assms(2)]
  from f(3) assms(1) have created: "created" by blast
  from assms(2) obtain content where c: "files s (source_path Directories Fname) = Some content"
    and a: "\<not> access_denied s (source_path Directories Fname)"
    and d': "created \<Longrightarrow> destination_path Directories Fname \<noteq> source_path Directories Fname
               \<and> \<not> access_denied s (destination_path Directories Fname)"
    by (rule create_file_Inr) blast
  from d' [OF created] have d: "destination_path Directories Fname \<noteq> source_path Directories Fname"
           "\<not> access_denied s (destination_path Directories Fname)" by simp_all
  from f(5) [OF created c]
  have f1: "files s1 = (files s)(destination_path Directories Fname \<mapsto> rewritten s content)" .
  from f(1) have den: "access_denied s1 = access_denied s" by (simp add: same_settings_def)
  from f(2) assms(1) have al: "mAlwaysOverwriteFiles s1" by simp
  from f1 d(1) c have c1: "files s1 (source_path Directories Fname) = Some content" by simp
  from create_file_returns [OF c1, of] a d den al obtain s2
    where r2: "create_file s1 Directories Fname = Inr (True, s2)" by auto
  from create_file_fields(5) [OF r2 _ c1] rewritten_same_settings [OF f(1), of content] f1
  have "files s2 = files s1" by simp
  with r2 created have first: "\<exists>s2. create_file s1 Directories Fname = Inr (created, s2) \<and> files s2 = files s1"
    by simp
  have second: "files t1 (destination_path Directories Fname) = files s1 (destination_path Directories Fname)"
    if t: "mAlwaysOverwriteFiles t" "create_file t Directories Fname = Inr (created', t1)"
      "mNotice t = mNotice s" "mCommentPrefix t = mCommentPrefix s" "mReplace t = mReplace s"
      "files t (source_path Directories Fname) = files s (source_path Directories Fname)"
  proof -
    from create_file_fields(3) [OF t(2)] t(1) have "created'" by blast
    from create_file_fields(5) [OF t(2) this, of content] t(6) c
    have "files t1 = (files t)(destination_path Directories Fname \<mapsto> rewritten t content)" by simp
    moreover from t(3-5) have "rewritten t content = rewritten s content"
      by (simp add: rewritten_def split: option.splits)
    ultimately show ?thesis using f1 by simp
  qed
  from first second show ?thesis by blast
qed

theorem rewrite_twice_same_destination_witness:
  "\<exists>s1 s2.
     create_file
       ((example_world ''N'' [] [source_path example_directories ''a.c'' \<mapsto> ''int x;'' @ newline @ ''int y;''])
          \<lparr>mAlwaysOverwriteFiles := True\<rparr>)
       example_directories ''a.c'' = Inr (True, s1)
     \<and> create_file s1 example_directories ''a.c'' = Inr (True, s2)
     \<and> files s1 (destination_path example_directories ''a.c'') =
         Some (''// N'' @ newline @ ''int x;'' @ newline @ ''int y;'')
     \<and> files s2 (destination_path example_directories ''a.c'') =
         Some (''// N'' @ newline @ ''int x;'' @ newline @ ''int y;'')"
proof -
  let ?c = "''int x;'' @ newline @ ''int y;''"
  let ?w = "(example_world ''N'' [] [source_path example_directories ''a.c'' \<mapsto> ?c])
              \<lparr>mAlwaysOverwriteFiles := True\<rparr>"
  have "\<exists>s'. create_file ?w example_directories ''a.c'' = Inr (True, s')"
    by (rule create_file_returns [where content = ?c]) simp_all
  then obtain s1 where r1: "create_file ?w example_directories ''a.c'' = Inr (True, s1)" ..
  have a: "mAlwaysOverwriteFiles ?w" by simp
  from rewrite_twice_same_destination [OF a r1, THEN conjunct1] obtain s2
    where r2: "create_file s1 example_directories ''a.c'' = Inr (True, s2)"
      and e: "files s2 = files s1" by blast
  have c: "files ?w (source_path example_directories ''a.c'') = Some ?c" by simp
  have "rewritten ?w ?c = ''// N'' @ newline @ ''int x;'' @ newline @ ''int y;''"
    by (simp add: rewritten_def first_code_line_def freadline_def newline_def starts_with_def
          notice_block_def uint32_t_small)
  with create_file_destination [OF r1 c]
  have d: "files s1 (destination_path example_directories ''a.c'') =
      Some (''// N'' @ newline @ ''int x;'' @ newline @ ''int y;'')" by simp
  from r1 r2 d e show ?thesis by auto
qed

text \<open>
  C9. With an empty notice the loop that writes the notice still runs once: it writes
  the comment prefix and CR LF, one line. \<^verbatim>\<open>create_file\<close> does not reject the empty
  notice; the destination file of a source that is not empty is that line, the bytes
  of the first code line that line 723 writes with their CR LF, and the rest of the
  source.
\<close>

theorem empty_notice_one_comment_line:
  assumes "create_file s Directories Fname = Inr (True, s')"
    and "files s (source_path Directories Fname) = Some content"
    and "content \<noteq> []"
    and "mNotice s = []"
  shows "write_notice (mCommentPrefix s) (mNotice s) 0 [] = mCommentPrefix s @ newline
         \<and> (\<exists>firstCodeLine rest.
               first_code_line (mCommentPrefix s) (mReplace s) content = Some (firstCodeLine, rest)
               \<and> files s' (destination_path Directories Fname) =
                   Some (mCommentPrefix s @ newline
                         @ take (uint32_t (length firstCodeLine)) firstCodeLine @ newline @ rest))"
proof -
  have b: "notice_block (mCommentPrefix s) (mNotice s) = mCommentPrefix s @ newline"
    by (simp add: notice_block_def assms(4))
  from first_code_line_nonempty [OF assms(3)] obtain l r
    where l: "first_code_line (mCommentPrefix s) (mReplace s) content = Some (l, r)" by blast
  with create_file_destination [OF assms(1,2)] b show ?thesis
    by (simp add: write_notice_block rewritten_def)
qed

theorem empty_notice_one_comment_line_witness:
  "\<exists>s'. create_file (example_world [] [] [source_path example_directories ''a.c'' \<mapsto> ''int x;''])
          example_directories ''a.c'' = Inr (True, s')
      \<and> files s' (destination_path example_directories ''a.c'') =
          Some (''// '' @ newline @ ''int x;'' @ newline)"
proof -
  let ?w = "example_world [] [] [source_path example_directories ''a.c'' \<mapsto> ''int x;'']"
  have "\<exists>s'. create_file ?w example_directories ''a.c'' = Inr (True, s')"
    by (rule create_file_returns [where content = "''int x;''"])
       (simp_all add: example_directories_def source_path_def destination_path_def fexists_def)
  then obtain s' where r: "create_file ?w example_directories ''a.c'' = Inr (True, s')" ..
  have c: "files ?w (source_path example_directories ''a.c'') = Some ''int x;''"
    by simp
  have l: "first_code_line (mCommentPrefix ?w) (mReplace ?w) ''int x;'' = Some (''int x;'', [])"
    by (simp add: first_code_line_def freadline_def starts_with_def)
  from empty_notice_one_comment_line [OF r c] l r show ?thesis
    by (intro exI [of _ s']) (simp add: uint32_t_small)
qed




end
